theory Spec2Isabelle
  imports Main "HOL-Library.Word"
begin

unbundle bit_operations_syntax

section \<open>Data model of the Tox core (src/core.cpp)\<close>

type_synonym byte = "8 word"

text \<open>
  Modelled from the spec: the enum \<^verbatim>\<open>Status\<close> is declared in core.hpp, which is not among
  the sources; its values are the four presences the specification lists and core.cpp uses.
\<close>

datatype Status = Online | Offline | Away | Busy

text \<open>
  The user-status codes are the values of the enum \<^verbatim>\<open>TOX_USERSTATUS\<close> of the toxcore header
  tox.h, a library outside the repository: NONE, AWAY, BUSY, INVALID, counted from 0. The
  handler receives the code as a \<^verbatim>\<open>uint8_t\<close>.
\<close>

definition TOX_USERSTATUS_NONE :: byte where "TOX_USERSTATUS_NONE = 0"
definition TOX_USERSTATUS_AWAY :: byte where "TOX_USERSTATUS_AWAY = 1"
definition TOX_USERSTATUS_BUSY :: byte where "TOX_USERSTATUS_BUSY = 2"
definition TOX_USERSTATUS_INVALID :: byte where "TOX_USERSTATUS_INVALID = 3"

text \<open>
  The Qt signals that the modelled functions emit. A text payload is carried as the bytes
  that \<^verbatim>\<open>CString::toString(cString, cStringSize)\<close> hands to \<^verbatim>\<open>QString::fromUtf8\<close>: the
  first \<^verbatim>\<open>cStringSize\<close> bytes at \<^verbatim>\<open>cString\<close>, the size being a \<^verbatim>\<open>uint16_t\<close>. A time
  payload is carried as the seconds that \<^verbatim>\<open>QDateTime::fromTime_t(uint)\<close> receives, an
  unsigned integer of 32 bits.
\<close>

definition CString_toString :: "byte list \<Rightarrow> 16 word \<Rightarrow> byte list" where
  "CString_toString cString cStringSize = take (unat cStringSize) cString"

datatype signal =
    connected
  | disconnected
  | friendStatusChanged int Status
  | friendAdded int string
  | friendUsernameLoaded int "byte list"
  | friendStatusMessageLoaded int "byte list"
  | friendLastSeenChanged int "32 word"

section \<open>Callback adapter: Core::onUserStatusChanged\<close>

definition onUserStatusChanged :: "int \<Rightarrow> byte \<Rightarrow> signal" where
  "onUserStatusChanged friendId userstatus =
     (let status =
        (if userstatus = TOX_USERSTATUS_NONE then Online
         else if userstatus = TOX_USERSTATUS_AWAY then Away
         else if userstatus = TOX_USERSTATUS_BUSY then Busy
         else Online)
      in friendStatusChanged friendId status)"

section \<open>Tick loop: Core::checkConnection\<close>

text \<open>
  The function-local \<^verbatim>\<open>static bool isConnected\<close> is the state; the argument
  \<^verbatim>\<open>online\<close> is what \<^verbatim>\<open>tox_isconnected\<close> reports during this tick (the function asks
  twice, with nothing driving the engine in between). The result is the list of emitted
  signals and the new value of the static.
\<close>

definition checkConnection :: "bool \<Rightarrow> bool \<Rightarrow> signal list \<times> bool" where
  "checkConnection isConnected online =
     (if online \<and> \<not> isConnected then ([connected], True)
      else if \<not> online \<and> isConnected then ([disconnected], False)
      else ([], isConnected))"

text \<open>Successive ticks: the static survives from one call to the next.\<close>

fun checkConnections :: "bool \<Rightarrow> bool list \<Rightarrow> signal list" where
  "checkConnections isConnected [] = []"
| "checkConnections isConnected (online # rest) =
     (case checkConnection isConnected online of
        (sigs, isConnected') \<Rightarrow> sigs @ checkConnections isConnected' rest)"

section \<open>Identifier codec: Core::CData\<close>

text \<open>
  What the C++ leaves undefined is a value of the model: a read outside a byte array, a
  \<^verbatim>\<open>memcpy\<close> past the end of its destination, a message of negative length.
\<close>

datatype fault = OutOfRange | BufferOverflow | NegativeLength

text \<open>
  \<^verbatim>\<open>QByteArray::toHex\<close>: two lower-case digits per byte, the high nibble first.
\<close>

definition hexChar :: "nat \<Rightarrow> char" where
  "hexChar j =
     (if j \<le> 9 then char_of (j + of_char CHR ''0'') else char_of (j + of_char CHR ''a'' - 10))"

definition toHex :: "byte list \<Rightarrow> string" where
  "toHex d =
     concat (map (\<lambda>b. [hexChar (unat (drop_bit 4 b AND 0xf)), hexChar (unat (b AND 0xf))]) d)"

text \<open>
  \<^verbatim>\<open>QString::toUpper\<close> and \<^verbatim>\<open>QString::toLower\<close> on the letters A to Z. A character outside
  ASCII has no hex digit as its lower-case form and none survives \<^verbatim>\<open>toLatin1\<close> as one, so
  \<^verbatim>\<open>fromHex\<close> skips it whatever its case mapping is; the model leaves it unchanged.
\<close>

definition toUpper_char :: "char \<Rightarrow> char" where
  "toUpper_char c =
     (let n = of_char c :: nat in if 97 \<le> n \<and> n \<le> 122 then char_of (n - 32) else c)"

definition toLower_char :: "char \<Rightarrow> char" where
  "toLower_char c =
     (let n = of_char c :: nat in if 65 \<le> n \<and> n \<le> 90 then char_of (n + 32) else c)"

definition toUpper :: "string \<Rightarrow> string" where
  "toUpper s = map toUpper_char s"

definition toLower :: "string \<Rightarrow> string" where
  "toLower s = map toLower_char s"

text \<open>
  \<^verbatim>\<open>QByteArray::fromHex\<close>: the input is read from its last character to its first; a
  character that is no hex digit is skipped; the first digit met is the low nibble of a new
  byte put in front of the result, the next one its high nibble.
\<close>

definition hexValue :: "char \<Rightarrow> nat option" where
  "hexValue c =
     (let ch = of_char c :: nat in
      if of_char CHR ''0'' \<le> ch \<and> ch \<le> of_char CHR ''9'' then Some (ch - of_char CHR ''0'')
      else if of_char CHR ''a'' \<le> ch \<and> ch \<le> of_char CHR ''f''
        then Some (ch - of_char CHR ''a'' + 10)
      else if of_char CHR ''A'' \<le> ch \<and> ch \<le> of_char CHR ''F''
        then Some (ch - of_char CHR ''A'' + 10)
      else None)"

fun fromHex_loop :: "string \<Rightarrow> bool \<Rightarrow> byte list \<Rightarrow> byte list" where
  "fromHex_loop [] odd_digit res = res"
| "fromHex_loop (ch # rest) odd_digit res =
     (case hexValue ch of
        None \<Rightarrow> fromHex_loop rest odd_digit res
      | Some tmp \<Rightarrow>
          if odd_digit then fromHex_loop rest False (of_nat tmp # res)
          else (case res of
                  [] \<Rightarrow> fromHex_loop rest True res
                | r # rs \<Rightarrow> fromHex_loop rest True ((r OR push_bit 4 (of_nat tmp)) # rs)))"

definition fromHex :: "string \<Rightarrow> byte list" where
  "fromHex hexEncoded = fromHex_loop (rev hexEncoded) True []"

text \<open>
  \<^verbatim>\<open>CData::toString(cData, cDataSize)\<close> reads \<^verbatim>\<open>cDataSize\<close> bytes at \<^verbatim>\<open>cData\<close>.
  \<^verbatim>\<open>CData::fromString(data, cData)\<close> copies the decoded bytes to \<^verbatim>\<open>cData\<close> and returns
  their number as a \<^verbatim>\<open>uint16_t\<close>: the model returns the bytes copied and that number.
\<close>

definition CData_toString :: "byte list \<Rightarrow> 16 word \<Rightarrow> string" where
  "CData_toString cData cDataSize = toUpper (toHex (take (unat cDataSize) cData))"

definition CData_fromString :: "string \<Rightarrow> byte list \<times> 16 word" where
  "CData_fromString hexText =
     (let arr = fromHex (toLower hexText) in (arr, of_nat (length arr)))"

text \<open>
  The constructor \<^verbatim>\<open>CData(data, byteSize)\<close> allocates \<^verbatim>\<open>byteSize\<close> bytes, not
  initialised, and lets \<^verbatim>\<open>fromString\<close> copy into them with no check of the length. A
  byte of the buffer is \<^verbatim>\<open>None\<close> while nothing has been written to it.
\<close>

record CData =
  cData :: "byte option list"
  cDataSize :: "16 word"

definition CData_ctor :: "string \<Rightarrow> 16 word \<Rightarrow> fault + CData" where
  "CData_ctor hexText byteSize =
     (case CData_fromString hexText of
        (arr, n) \<Rightarrow>
          if length arr \<le> unat byteSize
          then Inr \<lparr>cData = map Some arr @ replicate (unat byteSize - length arr) None,
                    cDataSize = n\<rparr>
          else Inl BufferOverflow)"

text \<open>
  \<^verbatim>\<open>TOX_CLIENT_ID_SIZE\<close> is a constant of the toxcore header; \<^verbatim>\<open>CUserId::SIZE\<close> is
  this constant.
\<close>

definition TOX_CLIENT_ID_SIZE :: "16 word" where
  "TOX_CLIENT_ID_SIZE = 32"

definition CUserId_toString :: "byte list \<Rightarrow> string" where
  "CUserId_toString cUserId = CData_toString cUserId TOX_CLIENT_ID_SIZE"

definition CUserId_ctor :: "string \<Rightarrow> fault + CData" where
  "CUserId_ctor userId = CData_ctor userId TOX_CLIENT_ID_SIZE"

text \<open>The characters \<^verbatim>\<open>fromHex\<close> does not skip.\<close>

definition isHexDigit :: "char \<Rightarrow> bool" where
  "isHexDigit c = (hexValue c \<noteq> None)"

text \<open>A 32-byte identifier, for the examples.\<close>

definition peerId_example :: "byte list" where
  "peerId_example =
     [0x00, 0x01, 0x02, 0x03, 0x04, 0x05, 0x06, 0x07, 0x08, 0x09, 0x0A, 0x0B, 0x0C, 0x0D, 0x0E, 0x0F,
      0xF0, 0xE1, 0xD2, 0xC3, 0xB4, 0xA5, 0x96, 0x87, 0x78, 0x69, 0x5A, 0x4B, 0x3C, 0x2D, 0x1E, 0xFF]"

section \<open>Friend directory sync: Core::loadFriends and Core::checkLastOnline\<close>

text \<open>
  The engine, as far as \<^verbatim>\<open>loadFriends\<close> queries it: the friend numbers
  \<^verbatim>\<open>tox_get_friendlist\<close> writes, and per friend the answers of the getters. A getter that
  fills a buffer gives the pair of its return value and the buffer's bytes.
\<close>

datatype Tox = Tox
  (tox_get_friendlist: "int list")
  (tox_get_client_id: "int \<Rightarrow> byte list option")
  (tox_get_name_size: "int \<Rightarrow> int")
  (tox_get_name: "int \<Rightarrow> int \<times> byte list")
  (tox_get_status_message_size: "int \<Rightarrow> int")
  (tox_get_status_message: "int \<Rightarrow> int \<Rightarrow> int \<times> byte list")
  (tox_get_last_online: "int \<Rightarrow> 64 word")

definition tox_count_friendlist :: "Tox \<Rightarrow> 32 word" where
  "tox_count_friendlist tox = of_nat (length (tox_get_friendlist tox))"

text \<open>
  The engine's timestamp is a \<^verbatim>\<open>uint64_t\<close>; the test is made on all its 64 bits, and the
  call of \<^verbatim>\<open>QDateTime::fromTime_t(uint)\<close> converts it to \<^verbatim>\<open>uint\<close>, which keeps the low 32 bits.
\<close>

definition checkLastOnline :: "Tox \<Rightarrow> int \<Rightarrow> signal list" where
  "checkLastOnline tox friendId =
     (let lastOnline = tox_get_last_online tox friendId in
      if lastOnline > 0 then [friendLastSeenChanged friendId (ucast lastOnline)] else [])"

text \<open>The body of the loop of \<^verbatim>\<open>loadFriends\<close>, for the friend number \<^verbatim>\<open>ids[i]\<close>.\<close>

definition loadFriend :: "Tox \<Rightarrow> int \<Rightarrow> signal list" where
  "loadFriend tox friendId =
     (case tox_get_client_id tox friendId of
        None \<Rightarrow> []
      | Some clientId \<Rightarrow>
          [friendAdded friendId (CUserId_toString clientId)]
          @ (let nameSize = tox_get_name_size tox friendId in
             if nameSize > 0 then
               (let name = tox_get_name tox friendId in
                if fst name = nameSize
                then [friendUsernameLoaded friendId
                        (CString_toString (snd name) (word_of_int nameSize))]
                else [])
             else [])
          @ (let statusMessageSize = tox_get_status_message_size tox friendId in
             if statusMessageSize > 0 then
               (let statusMessage = tox_get_status_message tox friendId statusMessageSize in
                if fst statusMessage = statusMessageSize
                then [friendStatusMessageLoaded friendId
                        (CString_toString (snd statusMessage) (word_of_int statusMessageSize))]
                else [])
             else [])
          @ checkLastOnline tox friendId)"

text \<open>
  The loop counter is an \<^verbatim>\<open>int32_t\<close> compared with the count cast to \<^verbatim>\<open>int32_t\<close>: a count
  that reads as negative runs the loop not once.
\<close>

definition loadFriends :: "Tox \<Rightarrow> signal list" where
  "loadFriends tox =
     (let friendCount = tox_count_friendlist tox in
      if friendCount > 0
      then concat (map (loadFriend tox) (take (nat (sint friendCount)) (tox_get_friendlist tox)))
      else [])"

text \<open>The friend a signal is about, and the place of a signal in the sync of one friend.\<close>

fun signal_friend :: "signal \<Rightarrow> int option" where
  "signal_friend (friendStatusChanged i _) = Some i"
| "signal_friend (friendAdded i _) = Some i"
| "signal_friend (friendUsernameLoaded i _) = Some i"
| "signal_friend (friendStatusMessageLoaded i _) = Some i"
| "signal_friend (friendLastSeenChanged i _) = Some i"
| "signal_friend _ = None"

fun sync_rank :: "signal \<Rightarrow> nat" where
  "sync_rank (friendAdded _ _) = 0"
| "sync_rank (friendUsernameLoaded _ _) = 1"
| "sync_rank (friendStatusMessageLoaded _ _) = 2"
| "sync_rank (friendLastSeenChanged _ _) = 3"
| "sync_rank _ = 4"

text \<open>
  An engine with two friends, for the examples: friend 5 has an identifier, a name and a
  status message and was never seen online; the identifier of friend 9 cannot be read.
\<close>

definition tox_example :: Tox where
  "tox_example = Tox [5, 9]
     (\<lambda>i. if i = 5 then Some (replicate 32 0xAB) else None)
     (\<lambda>i. 3) (\<lambda>i. (3, [0x42, 0x6F, 0x62]))
     (\<lambda>i. 2) (\<lambda>i n. (2, [0x68, 0x69]))
     (\<lambda>i. 0)"

section \<open>Text codec: QString::toUtf8 and QString::fromUtf8\<close>

text \<open>
  A text is the list of its code points, Unicode scalar values (\<^verbatim>\<open>scalar\<close>); a \<^verbatim>\<open>QString\<close>
  with an unpaired surrogate is no text in this sense. \<^verbatim>\<open>toUtf8\<close> writes each code point in
  one to four bytes. \<^verbatim>\<open>fromUtf8\<close> is the strict decoder: \<^verbatim>\<open>None\<close> stands for an input that is not the
  encoding of a text (a stray or missing continuation byte, an overlong form, a surrogate, a
  value past U+10FFFF), where Qt puts replacement characters into the result.
\<close>

definition scalar :: "nat \<Rightarrow> bool" where
  "scalar c = (c < 0xD800 \<or> (0xE000 \<le> c \<and> c < 0x110000))"

definition utf8_encode :: "nat \<Rightarrow> byte list" where
  "utf8_encode c =
     (if c < 0x80 then [of_nat c]
      else if c < 0x800 then [of_nat (0xC0 + c div 64), of_nat (0x80 + c mod 64)]
      else if c < 0x10000
        then [of_nat (0xE0 + c div 4096), of_nat (0x80 + c div 64 mod 64), of_nat (0x80 + c mod 64)]
      else [of_nat (0xF0 + c div 262144), of_nat (0x80 + c div 4096 mod 64),
            of_nat (0x80 + c div 64 mod 64), of_nat (0x80 + c mod 64)])"

definition toUtf8 :: "nat list \<Rightarrow> byte list" where
  "toUtf8 message = concat (map utf8_encode message)"

definition trail :: "byte \<Rightarrow> bool" where
  "trail b = (0x80 \<le> unat b \<and> unat b < 0xC0)"

fun utf8_decode :: "byte list \<Rightarrow> (nat \<times> byte list) option" where
  "utf8_decode [] = None"
| "utf8_decode (b0 # bs) =
     (let n0 = unat b0 in
      if n0 < 0x80 then Some (n0, bs)
      else if 0xC0 \<le> n0 \<and> n0 < 0xE0 then
        (case bs of
           b1 # r \<Rightarrow>
             (let c = (n0 - 0xC0) * 64 + (unat b1 - 0x80) in
              if trail b1 \<and> 0x80 \<le> c then Some (c, r) else None)
         | _ \<Rightarrow> None)
      else if 0xE0 \<le> n0 \<and> n0 < 0xF0 then
        (case bs of
           b1 # b2 # r \<Rightarrow>
             (let c = (n0 - 0xE0) * 4096 + (unat b1 - 0x80) * 64 + (unat b2 - 0x80) in
              if trail b1 \<and> trail b2 \<and> 0x800 \<le> c \<and> scalar c then Some (c, r) else None)
         | _ \<Rightarrow> None)
      else if 0xF0 \<le> n0 \<and> n0 < 0xF8 then
        (case bs of
           b1 # b2 # b3 # r \<Rightarrow>
             (let c = (n0 - 0xF0) * 262144 + (unat b1 - 0x80) * 4096 + (unat b2 - 0x80) * 64
                      + (unat b3 - 0x80) in
              if trail b1 \<and> trail b2 \<and> trail b3 \<and> 0x10000 \<le> c \<and> scalar c
              then Some (c, r) else None)
         | _ \<Rightarrow> None)
      else None)"

function fromUtf8 :: "byte list \<Rightarrow> nat list option" where
  "fromUtf8 bs =
     (if bs = [] then Some []
      else (case utf8_decode bs of
              None \<Rightarrow> None
            | Some p \<Rightarrow> map_option ((#) (fst p)) (fromUtf8 (snd p))))"
  by pat_completeness auto
termination
proof (relation "measure length")
  show "wf (measure length)" by simp
next
  fix bs :: "byte list" and p x2
  assume "bs \<noteq> []" and "utf8_decode bs = Some x2"
  then have "length (snd x2) < length bs"
    by (cases bs; cases x2) (auto simp: Let_def split: if_splits list.splits)
  then show "(snd x2, bs) \<in> measure length" by simp
qed

section \<open>Message chunker: Core::sendMessage\<close>

text \<open>
  \<open>M\<close> stands for the toxcore constant \<^verbatim>\<open>TOX_MAX_MESSAGE_LENGTH\<close>, a parameter here. Positions
  are C \<^verbatim>\<open>int\<close>s, modelled without a bound: a \<^verbatim>\<open>QByteArray\<close> has fewer than \<open>2 ^ 31\<close>
  bytes, and the sums of the loop stay below \<open>2 ^ 31\<close> as long as the length plus \<open>M\<close> does.
  A read of \<^verbatim>\<open>byteArray[i]\<close> outside the array is the fault \<^verbatim>\<open>OutOfRange\<close>.

  The two masks are \<^verbatim>\<open>char\<close>s, \<^verbatim>\<open>1 << 7\<close> and \<^verbatim>\<open>1 << 6\<close>. Whether \<^verbatim>\<open>char\<close> is signed or
  not, \<^verbatim>\<open>byteArray[i] & mask\<close> is non-zero exactly when the byte has the bit of the mask,
  which is what the test on the 8-bit word says.
\<close>

definition multibyteCodepoint :: byte where
  "multibyteCodepoint = push_bit 7 1"

definition multibyteCodepointStart :: byte where
  "multibyteCodepointStart = push_bit 6 1"

definition splitOn :: "byte list" where
  "splitOn = map of_char '' .,-''"

definition byteAt :: "byte list \<Rightarrow> int \<Rightarrow> fault + byte" where
  "byteAt byteArray i =
     (if 0 \<le> i \<and> i < int (length byteArray) then Inr (byteArray ! nat i) else Inl OutOfRange)"

text \<open>
  The first inner loop,
  \<^verbatim>\<open>for (int i = absoluteMaxPosition; i > absoluteMaxPosition - 4; i --)\<close>, entered at \<open>i\<close>: the
  value of \<^verbatim>\<open>lastCodepointStart\<close> after it, which is \<open>- 1\<close> when no byte stopped it.
\<close>

function findCodepointStart :: "byte list \<Rightarrow> int \<Rightarrow> int \<Rightarrow> fault + int" where
  "findCodepointStart byteArray absoluteMaxPosition i =
     (if i > absoluteMaxPosition - 4 then
        (case byteAt byteArray i of
           Inl e \<Rightarrow> Inl e
         | Inr b \<Rightarrow>
             if b AND multibyteCodepoint \<noteq> 0 \<and> \<not> (b AND multibyteCodepointStart \<noteq> 0)
             then findCodepointStart byteArray absoluteMaxPosition (i - 1)
             else Inr i)
      else Inr (- 1))"
  by pat_completeness auto
termination
  by (relation "measure (\<lambda>(byteArray, absoluteMaxPosition, i). nat (i - (absoluteMaxPosition - 4)))")
    auto

text \<open>
  The second inner loop,
  \<^verbatim>\<open>for (int i = lastCodepointStart; i > absoluteMaxPosition - TOX_MAX_MESSAGE_LENGTH / 4; i --)\<close>,
  entered at \<open>i\<close>: the value of \<^verbatim>\<open>splitPosition\<close> at the label \<^verbatim>\<open>found\<close>.
\<close>

function findSplitPosition :: "nat \<Rightarrow> byte list \<Rightarrow> int \<Rightarrow> int \<Rightarrow> fault + int" where
  "findSplitPosition M byteArray absoluteMaxPosition i =
     (if i > absoluteMaxPosition - int (M div 4) then
        (case byteAt byteArray i of
           Inl e \<Rightarrow> Inl e
         | Inr b \<Rightarrow>
             if b AND multibyteCodepoint \<noteq> 0
             then findSplitPosition M byteArray absoluteMaxPosition (i - 1)
             else if b \<in> set splitOn then Inr (i + 1)
             else findSplitPosition M byteArray absoluteMaxPosition (i - 1))
      else Inr (- 1))"
  by pat_completeness auto
termination
  by (relation "measure (\<lambda>(M, byteArray, absoluteMaxPosition, i).
        nat (i - (absoluteMaxPosition - int (M div 4))))")
    auto

text \<open>One turn of the \<^verbatim>\<open>while\<close> loop up to the send: the final value of \<^verbatim>\<open>splitPosition\<close>.\<close>

definition splitPosition :: "nat \<Rightarrow> byte list \<Rightarrow> int \<Rightarrow> fault + int" where
  "splitPosition M byteArray messageOffset =
     (let absoluteMaxLength = int M + messageOffset;
          absoluteMaxPosition = absoluteMaxLength - 1
      in case findCodepointStart byteArray absoluteMaxPosition absoluteMaxPosition of
           Inl e \<Rightarrow> Inl e
         | Inr lastCodepointStart \<Rightarrow>
             (case findSplitPosition M byteArray absoluteMaxPosition lastCodepointStart of
                Inl e \<Rightarrow> Inl e
              | Inr found \<Rightarrow>
                  Inr (if found \<le> messageOffset \<or> found > absoluteMaxLength
                       then lastCodepointStart else found)))"

text \<open>
  The bytes \<^verbatim>\<open>byteArray.data() + messageOffset\<close> of the given length, as handed to
  \<^verbatim>\<open>tox_send_message\<close> and to \<^verbatim>\<open>QString::fromUtf8\<close>.
\<close>

definition messageBytes :: "byte list \<Rightarrow> int \<Rightarrow> int \<Rightarrow> fault + byte list" where
  "messageBytes byteArray messageOffset len =
     (if len < 0 then Inl NegativeLength
      else if 0 \<le> messageOffset \<and> messageOffset + len \<le> int (length byteArray)
        then Inr (take (nat len) (drop (nat messageOffset) byteArray))
      else Inl OutOfRange)"

text \<open>
  The \<^verbatim>\<open>while\<close> loop and the final send. The loop may run forever, so it is given a number
  of turns: the result is the list of the messages sent so far, in order, and whether the
  function has returned (\<^verbatim>\<open>Finished\<close>), is still in the loop when the turns are used up
  (\<^verbatim>\<open>Unfinished\<close>) or has hit a fault. A message is the byte sequence handed to
  \<^verbatim>\<open>tox_send_message\<close>; the signal \<^verbatim>\<open>messageSentResult\<close> echoes the same bytes decoded.
\<close>

datatype progress = Finished | Unfinished | Failed fault

fun sendLoop :: "nat \<Rightarrow> nat \<Rightarrow> byte list \<Rightarrow> int \<Rightarrow> byte list list \<times> progress" where
  "sendLoop turns M byteArray messageOffset =
     (if int (length byteArray) > int M + messageOffset then
        (case turns of
           0 \<Rightarrow> ([], Unfinished)
         | Suc turns' \<Rightarrow>
             (case splitPosition M byteArray messageOffset of
                Inl e \<Rightarrow> ([], Failed e)
              | Inr cutPoint \<Rightarrow>
                  (case messageBytes byteArray messageOffset (cutPoint - messageOffset) of
                     Inl e \<Rightarrow> ([], Failed e)
                   | Inr chunk \<Rightarrow>
                       (let later = sendLoop turns' M byteArray cutPoint
                        in (chunk # fst later, snd later)))))
      else if int (length byteArray) - messageOffset > 0 then
        (case messageBytes byteArray messageOffset (int (length byteArray) - messageOffset) of
           Inl e \<Rightarrow> ([], Failed e)
         | Inr chunk \<Rightarrow> ([chunk], Finished))
      else ([], Finished))"

definition sendMessage :: "nat \<Rightarrow> nat \<Rightarrow> nat list \<Rightarrow> byte list list \<times> progress" where
  "sendMessage turns M message = sendLoop turns M (toUtf8 message) 0"

text \<open>The texts echoed by \<^verbatim>\<open>messageSentResult\<close>, one after the other.\<close>

fun decodeChunks :: "byte list list \<Rightarrow> nat list option" where
  "decodeChunks [] = Some []"
| "decodeChunks (chunk # chunks) =
     (case fromUtf8 chunk of
        None \<Rightarrow> None
      | Some t \<Rightarrow> map_option ((@) t) (decodeChunks chunks))"

text \<open>
  For the statements: the byte position at which the \<open>n\<close>-th code point of a text starts
  in its encoding (the boundaries between code points), and the test the second inner loop
  makes on a byte, a split character in a single byte.
\<close>

definition byteOffset :: "nat list \<Rightarrow> nat \<Rightarrow> nat" where
  "byteOffset T n = length (toUtf8 (take n T))"

definition breakByte :: "byte \<Rightarrow> bool" where
  "breakByte b = (\<not> (b AND multibyteCodepoint \<noteq> 0) \<and> b \<in> set splitOn)"

text \<open>
  The recursive equations are used where a proof asks for them, one turn at a time.
\<close>

declare findCodepointStart.simps [simp del]
declare findSplitPosition.simps [simp del]
declare fromUtf8.simps [simp del]
declare sendLoop.simps [simp del]

text \<open>
  Texts for the examples: the sentence of the specification, an emoji followed by a letter,
  and a text with code points of four, one, two and three bytes.
\<close>

definition fox_text :: "nat list" where
  "fox_text = map of_char ''The quick brown fox jumps over the lazy dog again''"

definition emoji_text :: "nat list" where
  "emoji_text = [0x1F600, 0x61]"

definition mixed_text :: "nat list" where
  "mixed_text = [0x1F600, 0x61, 0xE9, 0x20AC]"

section \<open>Results: callback adapter and tick loop\<close>

text \<open>
  C10. Every user-status code other than the three recognised ones (none/available, away,
  busy) makes the user-status handler emit a presence change with presence Online: the
  \<^verbatim>\<open>default\<close> branch of the switch.
\<close>

theorem unknown_userstatus_is_Online:
  assumes "userstatus \<noteq> TOX_USERSTATUS_NONE"
    and "userstatus \<noteq> TOX_USERSTATUS_AWAY"
    and "userstatus \<noteq> TOX_USERSTATUS_BUSY"
  shows "onUserStatusChanged friendId userstatus = friendStatusChanged friendId Online"
  using assms by (simp add: onUserStatusChanged_def)

theorem unknown_userstatus_is_Online_witness:
  "TOX_USERSTATUS_INVALID \<noteq> TOX_USERSTATUS_NONE
   \<and> TOX_USERSTATUS_INVALID \<noteq> TOX_USERSTATUS_AWAY
   \<and> TOX_USERSTATUS_INVALID \<noteq> TOX_USERSTATUS_BUSY
   \<and> onUserStatusChanged 7 TOX_USERSTATUS_INVALID = friendStatusChanged 7 Online
   \<and> onUserStatusChanged 7 200 = friendStatusChanged 7 Online"
proof -
  have a: "TOX_USERSTATUS_INVALID \<noteq> TOX_USERSTATUS_NONE"
    and b: "TOX_USERSTATUS_INVALID \<noteq> TOX_USERSTATUS_AWAY"
    and c: "TOX_USERSTATUS_INVALID \<noteq> TOX_USERSTATUS_BUSY"
    by (simp_all add: TOX_USERSTATUS_INVALID_def TOX_USERSTATUS_NONE_def
        TOX_USERSTATUS_AWAY_def TOX_USERSTATUS_BUSY_def)
  have a': "(200::byte) \<noteq> TOX_USERSTATUS_NONE"
    and b': "(200::byte) \<noteq> TOX_USERSTATUS_AWAY"
    and c': "(200::byte) \<noteq> TOX_USERSTATUS_BUSY"
    by (simp_all add: TOX_USERSTATUS_NONE_def TOX_USERSTATUS_AWAY_def TOX_USERSTATUS_BUSY_def)
  show ?thesis
    using a b c unknown_userstatus_is_Online [OF a b c, of 7]
      unknown_userstatus_is_Online [OF a' b' c', of 7]
    by simp
qed

text \<open>
  C8. The connectivity check is edge-triggered. Started with the static at
  ``not connected'', the readings online, online, offline, offline, online emit exactly
  connected, disconnected, connected; in general one tick emits one signal when the reading
  differs from the remembered state and none when it repeats, and remembers the reading.
\<close>

theorem checkConnection_edge_triggered:
  "checkConnections False [True, True, False, False, True]
     = [connected, disconnected, connected]
   \<and> (\<forall>isConnected online.
        checkConnection isConnected online =
          (if online = isConnected then ([], online)
           else ([if online then connected else disconnected], online)))"
  by (simp add: checkConnection_def)

section \<open>Results: friend directory sync\<close>

lemma loadFriend_sorted:
  "sorted_wrt (\<lambda>a b. sync_rank a < sync_rank b) (loadFriend tox friendId)"
  unfolding loadFriend_def checkLastOnline_def Let_def
  by (auto split: option.split)

lemma loadFriend_friend:
  "s \<in> set (loadFriend tox friendId) \<Longrightarrow> signal_friend s = Some friendId"
  unfolding loadFriend_def checkLastOnline_def Let_def
  by (auto split: option.split_asm if_split_asm)

lemma loadFriend_rank:
  "s \<in> set (loadFriend tox friendId) \<Longrightarrow> sync_rank s < 4"
  unfolding loadFriend_def checkLastOnline_def Let_def
  by (auto split: option.split_asm if_split_asm)

lemma loadFriend_added:
  "(friendAdded friendId idText \<in> set (loadFriend tox friendId))
    = (\<exists>clientId. tox_get_client_id tox friendId = Some clientId
          \<and> idText = CUserId_toString clientId)"
  by (cases "tox_get_client_id tox friendId")
    (auto simp: loadFriend_def checkLastOnline_def Let_def)

lemma loadFriend_name:
  "(friendUsernameLoaded friendId nameText \<in> set (loadFriend tox friendId))
    = (tox_get_client_id tox friendId \<noteq> None
       \<and> 0 < tox_get_name_size tox friendId
       \<and> fst (tox_get_name tox friendId) = tox_get_name_size tox friendId
       \<and> nameText = CString_toString (snd (tox_get_name tox friendId))
                      (word_of_int (tox_get_name_size tox friendId)))"
  by (cases "tox_get_client_id tox friendId")
    (auto simp: loadFriend_def checkLastOnline_def Let_def)

lemma loadFriend_statusMessage:
  "(friendStatusMessageLoaded friendId statusText \<in> set (loadFriend tox friendId))
    = (tox_get_client_id tox friendId \<noteq> None
       \<and> 0 < tox_get_status_message_size tox friendId
       \<and> fst (tox_get_status_message tox friendId (tox_get_status_message_size tox friendId))
           = tox_get_status_message_size tox friendId
       \<and> statusText =
           CString_toString
             (snd (tox_get_status_message tox friendId (tox_get_status_message_size tox friendId)))
             (word_of_int (tox_get_status_message_size tox friendId)))"
  by (cases "tox_get_client_id tox friendId")
    (auto simp: loadFriend_def checkLastOnline_def Let_def)

lemma loadFriend_lastSeen_payload:
  "(friendLastSeenChanged friendId seen \<in> set (loadFriend tox friendId))
    = (tox_get_client_id tox friendId \<noteq> None \<and> tox_get_last_online tox friendId \<noteq> 0
       \<and> seen = ucast (tox_get_last_online tox friendId))"
  by (cases "tox_get_client_id tox friendId")
    (auto simp: loadFriend_def checkLastOnline_def Let_def word_greater_zero_iff)

lemma loadFriend_lastSeen:
  "(\<exists>t. friendLastSeenChanged friendId t \<in> set (loadFriend tox friendId))
    = (tox_get_client_id tox friendId \<noteq> None \<and> tox_get_last_online tox friendId \<noteq> 0)"
  by (simp add: loadFriend_lastSeen_payload)

lemma loadFriend_example:
  assumes "tox_get_client_id tox friendId = Some clientId"
    and "tox_get_name_size tox friendId = n" and "0 < n"
    and "tox_get_name tox friendId = (n, name)"
    and "tox_get_status_message_size tox friendId = m" and "0 < m"
    and "tox_get_status_message tox friendId m = (m, statusMessage)"
    and "tox_get_last_online tox friendId = 0"
  shows "loadFriend tox friendId =
    [friendAdded friendId (CUserId_toString clientId),
     friendUsernameLoaded friendId (CString_toString name (word_of_int n)),
     friendStatusMessageLoaded friendId (CString_toString statusMessage (word_of_int m))]"
  using assms by (simp add: loadFriend_def checkLastOnline_def)

lemma sint_count:
  assumes "n < 2 ^ 31"
  shows "sint (word_of_nat n :: 32 word) = int n"
proof -
  have "sint (word_of_nat n :: 32 word) = signed_take_bit 31 (int n)"
    by (simp add: signed_of_nat)
  also have "\<dots> = int n"
    using assms by (intro signed_take_bit_int_eq_self) simp_all
  finally show ?thesis .
qed

lemma filter_concat_other:
  assumes "\<And>x s. x \<in> set xs \<Longrightarrow> s \<in> set (f x) \<Longrightarrow> g s = Some x"
    and "distinct xs" and "i \<in> set xs"
  shows "filter (\<lambda>s. g s = Some i) (concat (map f xs)) = f i"
  using assms
proof (induction xs)
  case Nil
  then show ?case by simp
next
  case (Cons x xs)
  show ?case
  proof (cases "x = i")
    case True
    have a: "filter (\<lambda>s. g s = Some i) (f x) = f x"
      using Cons.prems(1) [of x] True by (auto intro!: filter_True)
    have "i \<notin> set xs" using Cons.prems(2) True by simp
    then have b: "filter (\<lambda>s. g s = Some i) (concat (map f xs)) = []"
      using Cons.prems(1) by (fastforce simp: filter_empty_conv)
    show ?thesis using a b True by simp
  next
    case False
    have a: "filter (\<lambda>s. g s = Some i) (f x) = []"
      using Cons.prems(1) [of x] False by (auto simp: filter_empty_conv)
    have "filter (\<lambda>s. g s = Some i) (concat (map f xs)) = f i"
      using Cons.IH Cons.prems False by auto
    then show ?thesis using a by simp
  qed
qed

lemma loadFriends_all:
  assumes "length (tox_get_friendlist tox) < 2 ^ 31"
  shows "loadFriends tox = concat (map (loadFriend tox) (tox_get_friendlist tox))"
proof (cases "tox_get_friendlist tox = []")
  case True
  then show ?thesis by (simp add: loadFriends_def tox_count_friendlist_def)
next
  case False
  let ?n = "length (tox_get_friendlist tox)"
  have s: "sint (word_of_nat ?n :: 32 word) = int ?n"
    using assms by (rule sint_count)
  have "0 < ?n" using False by simp
  then have "unat (word_of_nat ?n :: 32 word) = ?n" using assms
    by (simp add: unat_of_nat)
  then have "word_of_nat ?n \<noteq> (0 :: 32 word)" using \<open>0 < ?n\<close>
    by (metis unat_0 less_numeral_extra(3))
  then show ?thesis
    by (simp add: loadFriends_def tox_count_friendlist_def s word_greater_zero_iff)
qed

text \<open>
  C9. The signals of one friend come in the order added, name loaded, status message loaded,
  last seen changed, each at most once (the ranks increase strictly), all about this friend
  and no signal of another kind. Which of them are emitted, and with what payload:
  \<^item> ``added'' exactly when the engine gives the friend's identifier, with the identifier in
    hexadecimal; a friend whose identifier cannot be read gets no signal at all;
  \<^item> ``name loaded'' exactly when moreover a name is available: the engine reports a positive
    name size and \<^verbatim>\<open>tox_get_name\<close> returns that size; the payload is that many bytes of
    the name buffer;
  \<^item> ``status message loaded'' exactly when moreover a status message is available, in the
    same sense;
  \<^item> ``last seen changed'' exactly when the identifier can be read and the engine's
    timestamp is not zero, with the low 32 bits of the timestamp.

  A friend with a name and a status message and the timestamp zero gives exactly added,
  name, status message. When the friend numbers are distinct (and fewer than \<open>2 ^ 31\<close>),
  the signals about one friend in the whole run of \<^verbatim>\<open>loadFriends\<close> are those of its turn.
\<close>

theorem loadFriends_order:
  "sorted_wrt (\<lambda>a b. sync_rank a < sync_rank b) (loadFriend tox friendId)
   \<and> (\<forall>s \<in> set (loadFriend tox friendId). signal_friend s = Some friendId)
   \<and> (\<forall>s \<in> set (loadFriend tox friendId). sync_rank s < 4)
   \<and> (loadFriend tox friendId \<noteq> [] \<longrightarrow>
        (\<exists>clientId. tox_get_client_id tox friendId = Some clientId
           \<and> hd (loadFriend tox friendId) = friendAdded friendId (CUserId_toString clientId)))
   \<and> ((loadFriend tox friendId = []) = (tox_get_client_id tox friendId = None))
   \<and> ((friendAdded friendId idText \<in> set (loadFriend tox friendId))
        = (\<exists>clientId. tox_get_client_id tox friendId = Some clientId
              \<and> idText = CUserId_toString clientId))
   \<and> ((friendUsernameLoaded friendId nameText \<in> set (loadFriend tox friendId))
        = (tox_get_client_id tox friendId \<noteq> None
           \<and> 0 < tox_get_name_size tox friendId
           \<and> fst (tox_get_name tox friendId) = tox_get_name_size tox friendId
           \<and> nameText = CString_toString (snd (tox_get_name tox friendId))
                          (word_of_int (tox_get_name_size tox friendId))))
   \<and> ((friendStatusMessageLoaded friendId statusText \<in> set (loadFriend tox friendId))
        = (tox_get_client_id tox friendId \<noteq> None
           \<and> 0 < tox_get_status_message_size tox friendId
           \<and> fst (tox_get_status_message tox friendId (tox_get_status_message_size tox friendId))
               = tox_get_status_message_size tox friendId
           \<and> statusText =
               CString_toString
                 (snd (tox_get_status_message tox friendId
                         (tox_get_status_message_size tox friendId)))
                 (word_of_int (tox_get_status_message_size tox friendId))))
   \<and> ((friendLastSeenChanged friendId seen \<in> set (loadFriend tox friendId))
        = (tox_get_client_id tox friendId \<noteq> None \<and> tox_get_last_online tox friendId \<noteq> 0
           \<and> seen = ucast (tox_get_last_online tox friendId)))
   \<and> ((\<exists>t. friendLastSeenChanged friendId t \<in> set (loadFriend tox friendId))
        = (tox_get_client_id tox friendId \<noteq> None \<and> tox_get_last_online tox friendId \<noteq> 0))
   \<and> (tox_get_client_id tox friendId = Some clientId
        \<and> 0 < tox_get_name_size tox friendId
        \<and> tox_get_name tox friendId = (tox_get_name_size tox friendId, name)
        \<and> 0 < tox_get_status_message_size tox friendId
        \<and> tox_get_status_message tox friendId (tox_get_status_message_size tox friendId)
             = (tox_get_status_message_size tox friendId, statusMessage)
        \<and> tox_get_last_online tox friendId = 0
        \<longrightarrow> loadFriend tox friendId =
             [friendAdded friendId (CUserId_toString clientId),
              friendUsernameLoaded friendId (CString_toString name (word_of_int (tox_get_name_size tox friendId))),
              friendStatusMessageLoaded friendId
                (CString_toString statusMessage
                   (word_of_int (tox_get_status_message_size tox friendId)))])
   \<and> (length (tox_get_friendlist tox) < 2 ^ 31 \<and> distinct (tox_get_friendlist tox)
        \<and> friendId \<in> set (tox_get_friendlist tox)
        \<longrightarrow> filter (\<lambda>s. signal_friend s = Some friendId) (loadFriends tox)
              = loadFriend tox friendId)"
proof (intro conjI impI)
  show "sorted_wrt (\<lambda>a b. sync_rank a < sync_rank b) (loadFriend tox friendId)"
    by (rule loadFriend_sorted)
  show "\<forall>s \<in> set (loadFriend tox friendId). signal_friend s = Some friendId"
    using loadFriend_friend by blast
  show "\<forall>s \<in> set (loadFriend tox friendId). sync_rank s < 4"
    using loadFriend_rank by blast
  show "(loadFriend tox friendId = []) = (tox_get_client_id tox friendId = None)"
    by (cases "tox_get_client_id tox friendId") (simp_all add: loadFriend_def)
  show "(friendAdded friendId idText \<in> set (loadFriend tox friendId))
        = (\<exists>clientId. tox_get_client_id tox friendId = Some clientId
              \<and> idText = CUserId_toString clientId)"
    by (rule loadFriend_added)
  show "(friendUsernameLoaded friendId nameText \<in> set (loadFriend tox friendId))
        = (tox_get_client_id tox friendId \<noteq> None
           \<and> 0 < tox_get_name_size tox friendId
           \<and> fst (tox_get_name tox friendId) = tox_get_name_size tox friendId
           \<and> nameText = CString_toString (snd (tox_get_name tox friendId))
                          (word_of_int (tox_get_name_size tox friendId)))"
    by (rule loadFriend_name)
  show "(friendStatusMessageLoaded friendId statusText \<in> set (loadFriend tox friendId))
        = (tox_get_client_id tox friendId \<noteq> None
           \<and> 0 < tox_get_status_message_size tox friendId
           \<and> fst (tox_get_status_message tox friendId (tox_get_status_message_size tox friendId))
               = tox_get_status_message_size tox friendId
           \<and> statusText =
               CString_toString
                 (snd (tox_get_status_message tox friendId
                         (tox_get_status_message_size tox friendId)))
                 (word_of_int (tox_get_status_message_size tox friendId)))"
    by (rule loadFriend_statusMessage)
  show "(friendLastSeenChanged friendId seen \<in> set (loadFriend tox friendId))
        = (tox_get_client_id tox friendId \<noteq> None \<and> tox_get_last_online tox friendId \<noteq> 0
           \<and> seen = ucast (tox_get_last_online tox friendId))"
    by (rule loadFriend_lastSeen_payload)
  show "(\<exists>t. friendLastSeenChanged friendId t \<in> set (loadFriend tox friendId))
        = (tox_get_client_id tox friendId \<noteq> None \<and> tox_get_last_online tox friendId \<noteq> 0)"
    by (rule loadFriend_lastSeen)
next
  assume "loadFriend tox friendId \<noteq> []"
  then show "\<exists>clientId. tox_get_client_id tox friendId = Some clientId
           \<and> hd (loadFriend tox friendId) = friendAdded friendId (CUserId_toString clientId)"
    by (cases "tox_get_client_id tox friendId") (simp_all add: loadFriend_def)
next
  assume "tox_get_client_id tox friendId = Some clientId
        \<and> 0 < tox_get_name_size tox friendId
        \<and> tox_get_name tox friendId = (tox_get_name_size tox friendId, name)
        \<and> 0 < tox_get_status_message_size tox friendId
        \<and> tox_get_status_message tox friendId (tox_get_status_message_size tox friendId)
             = (tox_get_status_message_size tox friendId, statusMessage)
        \<and> tox_get_last_online tox friendId = 0"
  then show "loadFriend tox friendId =
             [friendAdded friendId (CUserId_toString clientId),
              friendUsernameLoaded friendId (CString_toString name (word_of_int (tox_get_name_size tox friendId))),
              friendStatusMessageLoaded friendId
                (CString_toString statusMessage
                   (word_of_int (tox_get_status_message_size tox friendId)))]"
    by (intro loadFriend_example) simp_all
next
  assume a: "length (tox_get_friendlist tox) < 2 ^ 31 \<and> distinct (tox_get_friendlist tox)
        \<and> friendId \<in> set (tox_get_friendlist tox)"
  then have "loadFriends tox = concat (map (loadFriend tox) (tox_get_friendlist tox))"
    by (intro loadFriends_all) simp
  then show "filter (\<lambda>s. signal_friend s = Some friendId) (loadFriends tox)
              = loadFriend tox friendId"
    using a filter_concat_other [of "tox_get_friendlist tox" "loadFriend tox" signal_friend friendId]
      loadFriend_friend by simp
qed

theorem loadFriends_order_witness:
  "tox_get_client_id tox_example 5 = Some (replicate 32 0xAB)
   \<and> 0 < tox_get_name_size tox_example 5
   \<and> tox_get_name tox_example 5 = (tox_get_name_size tox_example 5, [0x42, 0x6F, 0x62])
   \<and> 0 < tox_get_status_message_size tox_example 5
   \<and> tox_get_status_message tox_example 5 (tox_get_status_message_size tox_example 5)
        = (tox_get_status_message_size tox_example 5, [0x68, 0x69])
   \<and> tox_get_last_online tox_example 5 = 0
   \<and> length (tox_get_friendlist tox_example) < 2 ^ 31
   \<and> distinct (tox_get_friendlist tox_example)
   \<and> 5 \<in> set (tox_get_friendlist tox_example)
   \<and> loadFriend tox_example 5 \<noteq> []
   \<and> loadFriend tox_example 5 =
        [friendAdded 5 (CUserId_toString (replicate 32 0xAB)),
         friendUsernameLoaded 5 (CString_toString [0x42, 0x6F, 0x62] 3),
         friendStatusMessageLoaded 5 (CString_toString [0x68, 0x69] 2)]
   \<and> filter (\<lambda>s. signal_friend s = Some 5) (loadFriends tox_example) = loadFriend tox_example 5
   \<and> tox_get_client_id tox_example 9 = None
   \<and> loadFriend tox_example 9 = []"
proof -
  have h: "tox_get_client_id tox_example 5 = Some (replicate 32 0xAB)
      \<and> 0 < tox_get_name_size tox_example 5
      \<and> tox_get_name tox_example 5 = (tox_get_name_size tox_example 5, [0x42, 0x6F, 0x62])
      \<and> 0 < tox_get_status_message_size tox_example 5
      \<and> tox_get_status_message tox_example 5 (tox_get_status_message_size tox_example 5)
           = (tox_get_status_message_size tox_example 5, [0x68, 0x69])
      \<and> tox_get_last_online tox_example 5 = 0"
    by (simp add: tox_example_def)
  have g: "length (tox_get_friendlist tox_example) < 2 ^ 31
      \<and> distinct (tox_get_friendlist tox_example) \<and> 5 \<in> set (tox_get_friendlist tox_example)"
    by (simp add: tox_example_def)
  note t = loadFriends_order [where tox = tox_example and friendId = 5
      and clientId = "replicate 32 0xAB" and name = "[0x42, 0x6F, 0x62]"
      and statusMessage = "[0x68, 0x69]"]
  note u = loadFriends_order [where tox = tox_example and friendId = 9]
  have n: "tox_get_client_id tox_example 9 = None"
    by (simp add: tox_example_def)
  have z: "loadFriend tox_example 9 = []"
    using u n by blast
  have e: "loadFriend tox_example 5 =
        [friendAdded 5 (CUserId_toString (replicate 32 0xAB)),
         friendUsernameLoaded 5 (CString_toString [0x42, 0x6F, 0x62]
            (word_of_int (tox_get_name_size tox_example 5))),
         friendStatusMessageLoaded 5 (CString_toString [0x68, 0x69]
            (word_of_int (tox_get_status_message_size tox_example 5)))]"
    using t h by blast
  have f: "filter (\<lambda>s. signal_friend s = Some 5) (loadFriends tox_example) = loadFriend tox_example 5"
    using t g by blast
  have s: "tox_get_name_size tox_example 5 = 3" "tox_get_status_message_size tox_example 5 = 2"
    by (simp_all add: tox_example_def)
  show ?thesis using h g e f n z unfolding s by simp
qed

section \<open>Results: identifier codec\<close>

lemma byte_exhaust:
  assumes "list_all (\<lambda>n. P (word_of_nat n :: byte)) [0..<256]"
  shows "P b"
proof -
  have "unat b < 256" using unsigned_less [of b] by simp
  then have "unat b \<in> set [0..<256]" by simp
  with assms have "P (word_of_nat (unat b))" unfolding list_all_iff by (rule bspec)
  then show ?thesis by simp
qed

lemma nibbles_join_all:
  "list_all (\<lambda>n. (word_of_nat n AND 0xf) OR push_bit 4 (drop_bit 4 (word_of_nat n) AND 0xf) = (word_of_nat n :: byte)) [0..<256]"
  by code_simp

lemma nibbles_join:
  "(b AND 0xf) OR push_bit 4 (drop_bit 4 b AND 0xf) = (b :: byte)"
  using nibbles_join_all by (rule byte_exhaust)

lemma nibble_less_all: "list_all (\<lambda>n. unat ((word_of_nat n :: byte) AND 0xf) < 16) [0..<256]"
  by code_simp

lemma nibble_less: "unat ((b :: byte) AND 0xf) < 16"
  using nibble_less_all by (rule byte_exhaust)

lemma hexValue_hexChar:
  assumes "j < 16"
  shows "hexValue (toLower_char (toUpper_char (hexChar j))) = Some j"
  using assms
  by (auto simp: hexValue_def toLower_char_def toUpper_char_def hexChar_def Let_def)

lemma hexValue_toLower: "hexValue (toLower_char c) = hexValue c"
  by (auto simp: hexValue_def toLower_char_def Let_def)

lemma hexValue_toUpper: "hexValue (toUpper_char c) = hexValue c"
  by (auto simp: hexValue_def toUpper_char_def Let_def)

lemma hexChar_table:
  "toUpper_char (hexChar 0) = CHR ''0''
   \<and> toUpper_char (hexChar 1) = CHR ''1''
   \<and> toUpper_char (hexChar 2) = CHR ''2''
   \<and> toUpper_char (hexChar 3) = CHR ''3''
   \<and> toUpper_char (hexChar 4) = CHR ''4''
   \<and> toUpper_char (hexChar 5) = CHR ''5''
   \<and> toUpper_char (hexChar 6) = CHR ''6''
   \<and> toUpper_char (hexChar 7) = CHR ''7''
   \<and> toUpper_char (hexChar 8) = CHR ''8''
   \<and> toUpper_char (hexChar 9) = CHR ''9''
   \<and> toUpper_char (hexChar 10) = CHR ''A''
   \<and> toUpper_char (hexChar 11) = CHR ''B''
   \<and> toUpper_char (hexChar 12) = CHR ''C''
   \<and> toUpper_char (hexChar 13) = CHR ''D''
   \<and> toUpper_char (hexChar 14) = CHR ''E''
   \<and> toUpper_char (hexChar 15) = CHR ''F''"
  by code_simp

lemma hexChar_upper:
  assumes "j < 16"
  shows "toUpper_char (hexChar j) \<in> set ''0123456789ABCDEF''"
proof -
  have "j \<in> set [0, 1, 2, 3, 4, 5, 6, 7, 8, 9, 10, 11, 12, 13, 14, 15]"
    using assms by (simp del: One_nat_def) arith
  then show ?thesis using hexChar_table by auto
qed

lemma toHex_snoc:
  "toHex (d @ [b]) = toHex d @ [hexChar (unat (drop_bit 4 b AND 0xf)), hexChar (unat (b AND 0xf))]"
  by (simp add: toHex_def)

lemma drop_nibble_less: "unat (drop_bit 4 (b :: byte) AND 0xf) < 16"
  using nibble_less [of "drop_bit 4 b"] .

lemma fromHex_loop_toHex:
  "fromHex_loop (rev (toLower (toUpper (toHex d)))) True res = d @ res"
proof (induction d arbitrary: res rule: rev_induct)
  case Nil
  then show ?case by (simp add: toHex_def toLower_def toUpper_def)
next
  case (snoc b d)
  let ?hi = "unat (drop_bit 4 b AND 0xf)" and ?lo = "unat (b AND 0xf)"
  have hi: "hexValue (toLower_char (toUpper_char (hexChar ?hi))) = Some ?hi"
    by (rule hexValue_hexChar) (rule drop_nibble_less)
  have lo: "hexValue (toLower_char (toUpper_char (hexChar ?lo))) = Some ?lo"
    by (rule hexValue_hexChar) (rule nibble_less)
  have "fromHex_loop (rev (toLower (toUpper (toHex (d @ [b]))))) True res
      = fromHex_loop (rev (toLower (toUpper (toHex d)))) True
          ((word_of_nat ?lo OR push_bit 4 (word_of_nat ?hi)) # res)"
    by (simp add: toHex_snoc toLower_def toUpper_def hi lo)
  also have "word_of_nat ?lo OR push_bit 4 (word_of_nat ?hi) = b"
    using nibbles_join [of b] by simp
  finally show ?case using snoc.IH by simp
qed

lemma length_toHex: "length (toHex d) = 2 * length d"
  by (induction d) (simp_all add: toHex_def)

lemma toHex_upper: "set (toUpper (toHex d)) \<subseteq> set ''0123456789ABCDEF''"
proof (induction d)
  case Nil
  then show ?case by (simp add: toHex_def toUpper_def)
next
  case (Cons b d)
  have "toUpper (toHex (b # d))
      = toUpper_char (hexChar (unat (drop_bit 4 b AND 0xf)))
        # toUpper_char (hexChar (unat (b AND 0xf))) # toUpper (toHex d)"
    by (simp add: toHex_def toUpper_def)
  then show ?case
    using Cons.IH hexChar_upper [OF nibble_less [of b]] hexChar_upper [OF drop_nibble_less [of b]]
    by (simp del: set_simps add: list.set(2) [where 'a=char])
qed

text \<open>
  C6. Hex round trip: for a byte sequence \<open>B\<close> (of a length a \<^verbatim>\<open>uint16_t\<close> holds, as the 32
  bytes of a user identifier), \<^verbatim>\<open>toString\<close> gives \<open>2 * length B\<close> characters, all of them
  upper-case hex digits, and constructing a \<^verbatim>\<open>CData\<close> of that size from them gives back
  exactly \<open>B\<close>, every byte of the buffer written.
\<close>

theorem hex_roundtrip:
  assumes "length B < 65536"
  shows "CData_ctor (CData_toString B (word_of_nat (length B))) (word_of_nat (length B))
           = Inr \<lparr>cData = map Some B, cDataSize = word_of_nat (length B)\<rparr>
         \<and> length (CData_toString B (word_of_nat (length B))) = 2 * length B
         \<and> set (CData_toString B (word_of_nat (length B))) \<subseteq> set ''0123456789ABCDEF''"
proof -
  have n: "unat (word_of_nat (length B) :: 16 word) = length B"
    using assms by (simp add: unat_of_nat)
  have s: "CData_toString B (word_of_nat (length B)) = toUpper (toHex B)"
    by (simp add: CData_toString_def n)
  have d: "fromHex (toLower (toUpper (toHex B))) = B"
    using fromHex_loop_toHex [of B "[]"] by (simp add: fromHex_def)
  have c: "CData_ctor (toUpper (toHex B)) (word_of_nat (length B))
           = Inr \<lparr>cData = map Some B, cDataSize = word_of_nat (length B)\<rparr>"
    by (simp add: CData_ctor_def CData_fromString_def d n)
  have l: "length (toUpper (toHex B)) = 2 * length B"
    by (simp add: toUpper_def length_toHex)
  show ?thesis
    unfolding s using c l toHex_upper [of B] by blast
qed

lemma fromHex_loop_filter:
  "fromHex_loop (filter (\<lambda>c. hexValue c \<noteq> None) xs) odd_digit res = fromHex_loop xs odd_digit res"
  by (induction xs odd_digit res rule: fromHex_loop.induct) (auto split: option.splits list.splits)

lemma fromHex_loop_cong:
  "map hexValue xs = map hexValue ys \<Longrightarrow> fromHex_loop xs odd_digit res = fromHex_loop ys odd_digit res"
proof (induction xs odd_digit res arbitrary: ys rule: fromHex_loop.induct)
  case (1 odd_digit res)
  then show ?case by simp
next
  case (2 ch rest odd_digit res)
  then obtain ch' rest' where ys: "ys = ch' # rest'" by (cases ys) auto
  with 2 show ?case by (auto split: option.splits list.splits)
qed

lemma fromHex_toLower: "fromHex (toLower s) = fromHex s"
  unfolding fromHex_def
  by (rule fromHex_loop_cong) (simp add: toLower_def hexValue_toLower rev_map)

lemma fromHex_toUpper: "fromHex (toUpper s) = fromHex s"
  unfolding fromHex_def
  by (rule fromHex_loop_cong) (simp add: toUpper_def hexValue_toUpper rev_map)

lemma fromHex_filter: "fromHex (filter (\<lambda>c. hexValue c \<noteq> None) s) = fromHex s"
  unfolding fromHex_def by (simp only: rev_filter fromHex_loop_filter)

lemma CData_fromString_eq:
  "CData_fromString hexText = (fromHex hexText, word_of_nat (length (fromHex hexText)))"
  by (simp add: CData_fromString_def fromHex_toLower Let_def)

lemma length_fromHex_loop:
  assumes "odd_digit \<or> res \<noteq> []"
  shows "length (fromHex_loop xs odd_digit res)
    = length res + (length (filter (\<lambda>c. hexValue c \<noteq> None) xs) + (if odd_digit then 1 else 0)) div 2"
  using assms
  by (induction xs odd_digit res rule: fromHex_loop.induct) (auto split: option.splits list.splits)

lemma length_fromHex:
  "length (fromHex s) = (length (filter (\<lambda>c. hexValue c \<noteq> None) s) + 1) div 2"
proof -
  have "length (fromHex_loop (rev s) True [])
      = length ([] :: byte list)
        + (length (filter (\<lambda>c. hexValue c \<noteq> None) (rev s)) + (if True then 1 else 0)) div 2"
    by (rule length_fromHex_loop) simp
  also have "filter (\<lambda>c. hexValue c \<noteq> None) (rev s) = rev (filter (\<lambda>c. hexValue c \<noteq> None) s)"
    by (simp only: rev_filter)
  finally show ?thesis by (simp add: fromHex_def)
qed

theorem hex_roundtrip_witness:
  "length peerId_example < 65536
   \<and> CData_toString peerId_example 32
       = ''000102030405060708090A0B0C0D0E0FF0E1D2C3B4A5968778695A4B3C2D1EFF''
   \<and> CData_ctor ''000102030405060708090A0B0C0D0E0FF0E1D2C3B4A5968778695A4B3C2D1EFF'' 32
       = Inr \<lparr>cData = map Some peerId_example, cDataSize = 32\<rparr>"
proof -
  have h: "length peerId_example < 65536" by (simp add: peerId_example_def)
  have l: "length peerId_example = 32" by (simp add: peerId_example_def)
  have e: "CData_toString peerId_example 32
       = ''000102030405060708090A0B0C0D0E0FF0E1D2C3B4A5968778695A4B3C2D1EFF''"
    by code_simp
  show ?thesis using hex_roundtrip [OF h] h e by (simp add: l)
qed

text \<open>
  C7 as claimed fails: one hex pair decoded for an expected size of 32 is accepted with size
  1, and so is an input with the characters x and y in it.
\<close>

theorem CData_accepts_counterexample:
  "CData_ctor ''12'' 32 = Inr \<lparr>cData = Some 0x12 # replicate 31 None, cDataSize = 1\<rparr>
   \<and> CData_ctor ''1x2y'' 1 = Inr \<lparr>cData = [Some 0x12], cDataSize = 1\<rparr>"
  by code_simp

text \<open>
  C7, as the code has it. Decoding checks nothing: characters that are no hex digits are
  skipped (the bytes are those of the hex digits alone, two digits a byte, rounded up), the
  case of the letters does not matter, and whenever the decoded bytes fit the buffer the
  constructor returns an object whose size is the decoded length, whatever the expected size;
  the rest of the buffer stays unwritten.
\<close>

theorem CData_decoding_unchecked:
  "CData_fromString (filter isHexDigit hexText) = CData_fromString hexText
   \<and> length (fst (CData_fromString hexText)) = (length (filter isHexDigit hexText) + 1) div 2
   \<and> CData_fromString (toUpper hexText) = CData_fromString hexText
   \<and> CData_fromString (toLower hexText) = CData_fromString hexText
   \<and> (length (fst (CData_fromString hexText)) \<le> unat byteSize \<longrightarrow>
        CData_ctor hexText byteSize
          = Inr \<lparr>cData = map Some (fst (CData_fromString hexText))
                      @ replicate (unat byteSize - length (fst (CData_fromString hexText))) None,
                    cDataSize = snd (CData_fromString hexText)\<rparr>)"
proof -
  have f: "isHexDigit = (\<lambda>c. hexValue c \<noteq> None)"
    by (rule ext) (simp add: isHexDigit_def)
  show ?thesis
    unfolding f CData_fromString_eq fromHex_filter fromHex_toUpper fromHex_toLower
      fst_conv snd_conv length_fromHex [symmetric]
    by (simp add: CData_ctor_def CData_fromString_eq)
qed

theorem CData_decoding_unchecked_witness:
  "length (fst (CData_fromString ''1x2y'')) \<le> unat (4 :: 16 word)
   \<and> CData_fromString ''1x2y'' = ([0x12], 1)
   \<and> CData_ctor ''1x2y'' 4 = Inr \<lparr>cData = [Some 0x12, None, None, None], cDataSize = 1\<rparr>"
proof -
  have a: "CData_fromString ''1x2y'' = ([0x12], 1)" by code_simp
  have l: "length (fst (CData_fromString ''1x2y'')) \<le> unat (4 :: 16 word)"
    unfolding a by simp
  have r: "replicate (unat (4 :: 16 word) - length [0x12 :: byte]) (None :: byte option)
      = [None, None, None]"
    by code_simp
  have "CData_ctor ''1x2y'' 4
          = Inr \<lparr>cData = map Some (fst (CData_fromString ''1x2y''))
                      @ replicate (unat (4 :: 16 word) - length (fst (CData_fromString ''1x2y''))) None,
                    cDataSize = snd (CData_fromString ''1x2y'')\<rparr>"
    using CData_decoding_unchecked [of "''1x2y''" 4] l by blast
  then have "CData_ctor ''1x2y'' 4 = Inr \<lparr>cData = [Some 0x12, None, None, None], cDataSize = 1\<rparr>"
    unfolding a fst_conv snd_conv r by simp
  with a l show ?thesis by blast
qed

section \<open>Results: text codec and message chunker\<close>

subsection \<open>The bit tests of the loops, by the value of the byte\<close>

lemma hi_bit_all:
  "list_all (\<lambda>n. ((word_of_nat n :: byte) AND multibyteCodepoint \<noteq> 0)
        = (128 \<le> unat (word_of_nat n :: byte)))
     [0..<256]"
  by code_simp

lemma hi_bit: "(b AND multibyteCodepoint \<noteq> 0) = (128 \<le> unat b)"
  using hi_bit_all by (rule byte_exhaust)

lemma unat_byte: "n < 256 \<Longrightarrow> unat (word_of_nat n :: byte) = n"
  by (simp add: unat_of_nat)

lemma trail_bits_all:
  "list_all (\<lambda>n. ((word_of_nat n :: byte) AND multibyteCodepoint \<noteq> 0
        \<and> \<not> ((word_of_nat n :: byte) AND multibyteCodepointStart \<noteq> 0)) = trail (word_of_nat n))
     [0..<256]"
  by code_simp

lemma trail_bits:
  "(b AND multibyteCodepoint \<noteq> 0 \<and> \<not> (b AND multibyteCodepointStart \<noteq> 0)) = trail b"
  using trail_bits_all by (rule byte_exhaust)

subsection \<open>The encoding of one code point\<close>

lemma trail_value_0: "unat (word_of_nat (0x80 + c mod 64) :: byte) = 0x80 + c mod 64"
  and trail_value_1: "unat (word_of_nat (0x80 + c div 64 mod 64) :: byte) = 0x80 + c div 64 mod 64"
  and trail_value_2: "unat (word_of_nat (0x80 + c div 4096 mod 64) :: byte) = 0x80 + c div 4096 mod 64"
  by (rule unat_byte, arith)+

lemma utf8_encode_1:
  assumes "c < 0x80"
  shows "\<exists>b0. utf8_encode c = [b0] \<and> unat b0 = c"
proof -
  have "utf8_encode c = [of_nat c]"
    using assms unfolding utf8_encode_def by (simp only: if_True)
  moreover have "unat (word_of_nat c :: byte) = c"
    using assms by (intro unat_byte) simp
  ultimately show ?thesis by (rule_tac x = "of_nat c" in exI) (rule conjI)
qed

lemma utf8_encode_2:
  assumes "0x80 \<le> c" "c < 0x800"
  shows "\<exists>b0 b1. utf8_encode c = [b0, b1] \<and> unat b0 = 0xC0 + c div 64 \<and> unat b1 = 0x80 + c mod 64"
proof -
  have "utf8_encode c = [of_nat (0xC0 + c div 64), of_nat (0x80 + c mod 64)]"
    using assms unfolding utf8_encode_def by (simp only: if_True if_False not_less [symmetric])
  moreover have "unat (word_of_nat (0xC0 + c div 64) :: byte) = 0xC0 + c div 64"
    using assms by (intro unat_byte) arith
  ultimately show ?thesis using trail_value_0 [of c] by (intro exI conjI)
qed

lemma utf8_encode_3:
  assumes "0x800 \<le> c" "c < 0x10000"
  shows "\<exists>b0 b1 b2. utf8_encode c = [b0, b1, b2] \<and> unat b0 = 0xE0 + c div 4096
    \<and> unat b1 = 0x80 + c div 64 mod 64 \<and> unat b2 = 0x80 + c mod 64"
proof -
  have "utf8_encode c = [of_nat (0xE0 + c div 4096), of_nat (0x80 + c div 64 mod 64),
        of_nat (0x80 + c mod 64)]"
    using assms unfolding utf8_encode_def
    by (simp only: if_True if_False not_less [symmetric]) auto
  moreover have "unat (word_of_nat (0xE0 + c div 4096) :: byte) = 0xE0 + c div 4096"
    using assms by (intro unat_byte) arith
  ultimately show ?thesis using trail_value_0 [of c] trail_value_1 [of c] by (intro exI conjI)
qed

lemma utf8_encode_4:
  assumes "0x10000 \<le> c" "c < 0x110000"
  shows "\<exists>b0 b1 b2 b3. utf8_encode c = [b0, b1, b2, b3] \<and> unat b0 = 0xF0 + c div 262144
    \<and> unat b1 = 0x80 + c div 4096 mod 64 \<and> unat b2 = 0x80 + c div 64 mod 64
    \<and> unat b3 = 0x80 + c mod 64"
proof -
  have "utf8_encode c = [of_nat (0xF0 + c div 262144), of_nat (0x80 + c div 4096 mod 64),
        of_nat (0x80 + c div 64 mod 64), of_nat (0x80 + c mod 64)]"
    using assms unfolding utf8_encode_def
    by (simp only: if_True if_False not_less [symmetric]) auto
  moreover have "unat (word_of_nat (0xF0 + c div 262144) :: byte) = 0xF0 + c div 262144"
    using assms by (intro unat_byte) arith
  ultimately show ?thesis using trail_value_0 [of c] trail_value_1 [of c] trail_value_2 [of c] by (intro exI conjI)
qed

lemma radix_64_step: "(q::nat) = a * 64 + b \<Longrightarrow> a * (64 * k) + b * k = q * k"
  by (simp add: algebra_simps)

lemma radix_64_two: "(q::nat) div 64 * 4096 + q mod 64 * 64 = q * 64"
  using radix_64_step [of q "q div 64" "q mod 64" 64] by simp

lemma radix_64_three: "(c::nat) div 4096 * 4096 + c div 64 mod 64 * 64 + c mod 64 = c"
proof -
  have h: "c div 4096 = c div 64 div 64" by (simp add: div_mult2_eq [symmetric])
  have "c div 4096 * 4096 + c div 64 mod 64 * 64 + c mod 64 = c div 64 * 64 + c mod 64"
    unfolding h by (simp only: radix_64_two)
  then show ?thesis by simp
qed

lemma radix_64_four:
  "(c::nat) div 262144 * 262144 + c div 4096 mod 64 * 4096 + c div 64 mod 64 * 64 + c mod 64 = c"
proof -
  have h: "c div 262144 = c div 4096 div 64" by (simp add: div_mult2_eq [symmetric])
  have "c div 4096 div 64 * 262144 + c div 4096 mod 64 * 4096 = c div 4096 * 4096"
    using radix_64_step [of "c div 4096" "c div 4096 div 64" "c div 4096 mod 64" 4096] by simp
  then have "c div 262144 * 262144 + c div 4096 mod 64 * 4096 = c div 4096 * 4096"
    unfolding h by simp
  then show ?thesis using radix_64_three [of c] by simp
qed

lemma utf8_encode_shape:
  assumes "c < 0x110000"
  shows "\<exists>h t. utf8_encode c = h # t \<and> \<not> trail h \<and> list_all trail t \<and> length t \<le> 3
           \<and> (unat h < 128 \<longrightarrow> t = [])"
proof -
  consider "c < 0x80" | "0x80 \<le> c" "c < 0x800" | "0x800 \<le> c" "c < 0x10000" | "0x10000 \<le> c"
    by linarith
  then show ?thesis
  proof cases
    case 1
    from utf8_encode_1 [OF 1] obtain b0 where "utf8_encode c = [b0]" "unat b0 = c" by blast
    with 1 show ?thesis by (simp add: trail_def)
  next
    case 2
    from utf8_encode_2 [OF 2] obtain b0 b1 where "utf8_encode c = [b0, b1]"
      "unat b0 = 0xC0 + c div 64" "unat b1 = 0x80 + c mod 64" by blast
    then show ?thesis by (simp add: trail_def)
  next
    case 3
    from utf8_encode_3 [OF 3] obtain b0 b1 b2 where "utf8_encode c = [b0, b1, b2]"
      "unat b0 = 0xE0 + c div 4096" "unat b1 = 0x80 + c div 64 mod 64" "unat b2 = 0x80 + c mod 64"
      by blast
    then show ?thesis by (simp add: trail_def)
  next
    case 4
    from utf8_encode_4 [OF 4 assms] obtain b0 b1 b2 b3 where "utf8_encode c = [b0, b1, b2, b3]"
      "unat b0 = 0xF0 + c div 262144" "unat b1 = 0x80 + c div 4096 mod 64"
      "unat b2 = 0x80 + c div 64 mod 64" "unat b3 = 0x80 + c mod 64"
      by blast
    then show ?thesis by (simp add: trail_def)
  qed
qed

lemma utf8_decode_encode:
  assumes "scalar c"
  shows "utf8_decode (utf8_encode c @ r) = Some (c, r)"
proof -
  have lt: "c < 0x110000" using assms by (auto simp: scalar_def)
  consider "c < 0x80" | "0x80 \<le> c" "c < 0x800" | "0x800 \<le> c" "c < 0x10000" | "0x10000 \<le> c"
    by linarith
  then show ?thesis
  proof cases
    case 1
    from utf8_encode_1 [OF 1] obtain b0 where "utf8_encode c = [b0]" "unat b0 = c" by blast
    with 1 show ?thesis by simp
  next
    case 2
    from utf8_encode_2 [OF 2] obtain b0 b1 where e: "utf8_encode c = [b0, b1]"
      and u: "unat b0 = 0xC0 + c div 64" "unat b1 = 0x80 + c mod 64" by blast
    have "c div 64 * 64 + c mod 64 = c" by simp
    moreover have "c div 64 < 32" using 2 by arith
    ultimately show ?thesis using 2 by (simp add: e u trail_def)
  next
    case 3
    from utf8_encode_3 [OF 3] obtain b0 b1 b2 where e: "utf8_encode c = [b0, b1, b2]"
      and u: "unat b0 = 0xE0 + c div 4096" "unat b1 = 0x80 + c div 64 mod 64"
        "unat b2 = 0x80 + c mod 64"
      by blast
    have "c div 4096 < 16" using 3 by arith
    then show ?thesis using 3 assms radix_64_three [of c] by (simp add: e u trail_def)
  next
    case 4
    from utf8_encode_4 [OF 4 lt] obtain b0 b1 b2 b3 where e: "utf8_encode c = [b0, b1, b2, b3]"
      and u: "unat b0 = 0xF0 + c div 262144" "unat b1 = 0x80 + c div 4096 mod 64"
      "unat b2 = 0x80 + c div 64 mod 64" "unat b3 = 0x80 + c mod 64"
      by blast
    have "c div 262144 < 8" using lt by arith
    then show ?thesis using 4 assms radix_64_four [of c] by (simp add: e u trail_def)
  qed
qed

subsection \<open>Encoding and decoding a text\<close>

lemma utf8_encode_nonempty: "utf8_encode c \<noteq> []"
  by (simp add: utf8_encode_def)

lemma toUtf8_Nil [simp]: "toUtf8 [] = []"
  by (simp add: toUtf8_def)

lemma toUtf8_Cons: "toUtf8 (c # T) = utf8_encode c @ toUtf8 T"
  by (simp add: toUtf8_def)

lemma toUtf8_append: "toUtf8 (S @ T) = toUtf8 S @ toUtf8 T"
  by (simp add: toUtf8_def)

lemma fromUtf8_Nil [simp]: "fromUtf8 [] = Some []"
  by (subst fromUtf8.simps) simp

lemma fromUtf8_toUtf8:
  assumes "list_all scalar T"
  shows "fromUtf8 (toUtf8 T) = Some T"
  using assms
proof (induction T)
  case Nil
  then show ?case by simp
next
  case (Cons c T)
  then have "utf8_decode (toUtf8 (c # T)) = Some (c, toUtf8 T)"
    by (simp add: toUtf8_Cons utf8_decode_encode)
  moreover have "toUtf8 (c # T) \<noteq> []"
    by (simp add: toUtf8_Cons utf8_encode_nonempty)
  ultimately show ?case using Cons by (subst fromUtf8.simps) simp
qed

subsection \<open>Boundaries between code points\<close>

lemma byteOffset_0 [simp]: "byteOffset T 0 = 0"
  by (simp add: byteOffset_def)

lemma byteOffset_Suc: "byteOffset (c # T) (Suc n) = length (utf8_encode c) + byteOffset T n"
  by (simp add: byteOffset_def toUtf8_Cons)

lemma byteOffset_length: "byteOffset T (length T) = length (toUtf8 T)"
  by (simp add: byteOffset_def)

lemma byteOffset_split:
  assumes "n \<le> m"
  shows "toUtf8 (take m T) = toUtf8 (take n T) @ toUtf8 (drop n (take m T))"
proof -
  have "take m T = take n (take m T) @ drop n (take m T)" by (simp only: append_take_drop_id)
  also have "take n (take m T) = take n T" using assms by (simp add: min_def)
  finally show ?thesis by (metis toUtf8_append)
qed

lemma byteOffset_mono: "n \<le> m \<Longrightarrow> byteOffset T n \<le> byteOffset T m"
  unfolding byteOffset_def using byteOffset_split [of n m T] by simp

lemma byteOffset_le: "byteOffset T n \<le> length (toUtf8 T)"
proof -
  have "toUtf8 T = toUtf8 (take n T) @ toUtf8 (drop n T)"
    by (metis append_take_drop_id toUtf8_append)
  then show ?thesis by (simp add: byteOffset_def)
qed

lemma toUtf8_eq_Nil: "toUtf8 T = [] \<longleftrightarrow> T = []"
  by (cases T) (simp_all add: toUtf8_Cons utf8_encode_nonempty)

lemma byteOffset_strict:
  assumes "n < m" "m \<le> length T"
  shows "byteOffset T n < byteOffset T m"
proof -
  have "drop n (take m T) \<noteq> []" using assms by simp
  then have "toUtf8 (drop n (take m T)) \<noteq> []" by (simp add: toUtf8_eq_Nil)
  then show ?thesis
    unfolding byteOffset_def using byteOffset_split [of n m T] assms by simp
qed

lemma byteOffset_slice:
  assumes "n \<le> m"
  shows "take (byteOffset T m - byteOffset T n) (drop (byteOffset T n) (toUtf8 T))
           = toUtf8 (drop n (take m T))"
proof -
  have "toUtf8 T = toUtf8 (take m T) @ toUtf8 (drop m T)"
    by (metis append_take_drop_id toUtf8_append)
  then have "toUtf8 T = toUtf8 (take n T) @ toUtf8 (drop n (take m T)) @ toUtf8 (drop m T)"
    using byteOffset_split [OF assms, of T] by simp
  moreover have "byteOffset T m - byteOffset T n = length (toUtf8 (drop n (take m T)))"
    unfolding byteOffset_def using byteOffset_split [OF assms, of T] by simp
  ultimately show ?thesis by (simp add: byteOffset_def)
qed

lemma byteOffset_tail:
  "drop (byteOffset T n) (toUtf8 T) = toUtf8 (drop n T)"
proof -
  have "toUtf8 T = toUtf8 (take n T) @ toUtf8 (drop n T)"
    by (metis append_take_drop_id toUtf8_append)
  then show ?thesis by (simp add: byteOffset_def)
qed

lemma start_is_boundary:
  assumes "list_all scalar T" "i < length (toUtf8 T)" "\<not> trail (toUtf8 T ! i)"
  shows "\<exists>n<length T. i = byteOffset T n"
  using assms
proof (induction T arbitrary: i)
  case Nil
  then show ?case by simp
next
  case (Cons c T)
  then have "c < 0x110000" by (auto simp: scalar_def)
  from utf8_encode_shape [OF this] obtain h t where
    e: "utf8_encode c = h # t" and t: "list_all trail t"
    by blast
  show ?case
  proof (cases "i = 0")
    case True
    then show ?thesis by auto
  next
    case False
    show ?thesis
    proof (cases "i \<le> length t")
      case True
      with False have "i - 1 < length t" by arith
      with False have "toUtf8 (c # T) ! i = t ! (i - 1)"
        by (simp add: toUtf8_Cons e nth_append nth_Cons')
      moreover have "trail (t ! (i - 1))"
        using t True False by (simp add: list_all_length)
      ultimately show ?thesis using Cons.prems(3) by simp
    next
      case False
      then have i: "length (utf8_encode c) \<le> i" by (simp add: e)
      then have "toUtf8 (c # T) ! i = toUtf8 T ! (i - length (utf8_encode c))"
        by (simp add: toUtf8_Cons nth_append)
      with Cons.prems i have "\<exists>n<length T. i - length (utf8_encode c) = byteOffset T n"
        by (intro Cons.IH) (simp_all add: toUtf8_Cons)
      then obtain n where "n < length T" "i - length (utf8_encode c) = byteOffset T n" by blast
      with i have "Suc n < length (c # T)" "i = byteOffset (c # T) (Suc n)"
        by (simp_all add: byteOffset_Suc)
      then show ?thesis by blast
    qed
  qed
qed

lemma ascii_next_boundary:
  assumes "list_all scalar T" "i < length (toUtf8 T)" "unat (toUtf8 T ! i) < 128"
  shows "\<exists>n\<le>length T. i + 1 = byteOffset T n"
  using assms
proof (induction T arbitrary: i)
  case Nil
  then show ?case by simp
next
  case (Cons c T)
  then have "c < 0x110000" by (auto simp: scalar_def)
  from utf8_encode_shape [OF this] obtain h t where
    e: "utf8_encode c = h # t" and t: "list_all trail t" and a: "unat h < 128 \<longrightarrow> t = []"
    by blast
  show ?case
  proof (cases "i = 0")
    case True
    with Cons.prems(3) have "unat h < 128" by (simp add: toUtf8_Cons e)
    with a have "utf8_encode c = [h]" by (simp add: e)
    then have "i + 1 = byteOffset (c # T) (Suc 0)" using True by (simp add: byteOffset_Suc)
    then show ?thesis by (intro exI [of _ "Suc 0"]) simp
  next
    case False
    show ?thesis
    proof (cases "i \<le> length t")
      case True
      with False have "i - 1 < length t" by arith
      with False have "toUtf8 (c # T) ! i = t ! (i - 1)"
        by (simp add: toUtf8_Cons e nth_append nth_Cons')
      moreover have "trail (t ! (i - 1))"
        using t True False by (simp add: list_all_length)
      ultimately show ?thesis using Cons.prems(3) by (simp add: trail_def)
    next
      case False
      then have i: "length (utf8_encode c) \<le> i" by (simp add: e)
      then have "toUtf8 (c # T) ! i = toUtf8 T ! (i - length (utf8_encode c))"
        by (simp add: toUtf8_Cons nth_append)
      with Cons.prems i have "\<exists>n\<le>length T. i - length (utf8_encode c) + 1 = byteOffset T n"
        by (intro Cons.IH) (simp_all add: toUtf8_Cons)
      then obtain n where "n \<le> length T" "i - length (utf8_encode c) + 1 = byteOffset T n"
        by blast
      with i have "Suc n \<le> length (c # T)" "i + 1 = byteOffset (c # T) (Suc n)"
        by (simp_all add: byteOffset_Suc)
      then show ?thesis by blast
    qed
  qed
qed

lemma start_in_window:
  assumes "list_all scalar T" "i + 3 < length (toUtf8 T)"
  shows "\<exists>j. i \<le> j \<and> j \<le> i + 3 \<and> \<not> trail (toUtf8 T ! j)"
  using assms
proof (induction T arbitrary: i)
  case Nil
  then show ?case by simp
next
  case (Cons c T)
  then have "c < 0x110000" by (auto simp: scalar_def)
  from utf8_encode_shape [OF this] obtain h t where
    e: "utf8_encode c = h # t" and h: "\<not> trail h" and l: "length t \<le> 3"
    by blast
  show ?case
  proof (cases "i = 0")
    case True
    then have "\<not> trail (toUtf8 (c # T) ! i)" using h by (simp add: toUtf8_Cons e)
    then show ?thesis by auto
  next
    case False
    show ?thesis
    proof (cases "i \<le> length t")
      case True
      let ?j = "Suc (length t)"
      have T: "T \<noteq> []" using Cons.prems(2) True l \<open>i \<noteq> 0\<close> by (auto simp: toUtf8_Cons e)
      then obtain c' T' where T': "T = c' # T'" by (cases T) auto
      with Cons.prems(1) have "c' < 0x110000" by (auto simp: scalar_def)
      from utf8_encode_shape [OF this] obtain h' t' where
        e': "utf8_encode c' = h' # t'" and h': "\<not> trail h'" by blast
      have "toUtf8 (c # T) ! ?j = h'"
        by (simp add: toUtf8_Cons e T' e' nth_append)
      with h' have "\<not> trail (toUtf8 (c # T) ! ?j)" by simp
      moreover have "i \<le> ?j" "?j \<le> i + 3" using True False l by simp_all
      ultimately show ?thesis by blast
    next
      case False
      then have i: "length (utf8_encode c) \<le> i" by (simp add: e)
      with Cons.prems have "\<exists>j. i - length (utf8_encode c) \<le> j \<and> j \<le> i - length (utf8_encode c) + 3
          \<and> \<not> trail (toUtf8 T ! j)"
        by (intro Cons.IH) (simp_all add: toUtf8_Cons)
      then obtain j where j: "i - length (utf8_encode c) \<le> j" "j \<le> i - length (utf8_encode c) + 3"
        "\<not> trail (toUtf8 T ! j)" by blast
      have "toUtf8 (c # T) ! (j + length (utf8_encode c)) = toUtf8 T ! j"
        by (simp add: toUtf8_Cons nth_append)
      moreover have "i \<le> j + length (utf8_encode c)" "j + length (utf8_encode c) \<le> i + 3"
        using j i by arith+
      ultimately show ?thesis
        using j(3) by (intro exI [of _ "j + length (utf8_encode c)"]) simp
    qed
  qed
qed

subsection \<open>The two inner loops\<close>

lemma byteAt_in: "0 \<le> i \<Longrightarrow> i < int (length ba) \<Longrightarrow> byteAt ba i = Inr (ba ! nat i)"
  by (simp add: byteAt_def)

lemma trail_bits':
  "(b AND multibyteCodepoint \<noteq> 0 \<and> b AND multibyteCodepointStart = 0) = trail b"
  using trail_bits [of b] by simp

lemma findCodepointStart_step:
  assumes "p - 4 < i" "0 \<le> i" "i < int (length ba)"
  shows "findCodepointStart ba p i
    = (if trail (ba ! nat i) then findCodepointStart ba p (i - 1) else Inr i)"
  using assms by (subst findCodepointStart.simps) (simp add: byteAt_in trail_bits')

lemma findCodepointStart_stop:
  assumes "\<not> p - 4 < i"
  shows "findCodepointStart ba p i = Inr (- 1)"
  using assms by (subst findCodepointStart.simps) simp

lemma findSplitPosition_step:
  assumes "p - int (M div 4) < i" "0 \<le> i" "i < int (length ba)"
  shows "findSplitPosition M ba p i
    = (if breakByte (ba ! nat i) then Inr (i + 1) else findSplitPosition M ba p (i - 1))"
  using assms by (subst findSplitPosition.simps) (simp add: byteAt_in breakByte_def)

lemma findSplitPosition_stop:
  assumes "\<not> p - int (M div 4) < i"
  shows "findSplitPosition M ba p i = Inr (- 1)"
  using assms by (subst findSplitPosition.simps) simp

lemma findCodepointStart_result:
  assumes "- 1 \<le> p - 4" "i < int (length ba)"
  shows "\<exists>r. findCodepointStart ba p i = Inr r
    \<and> ((r = - 1 \<and> (\<forall>j. p - 4 < j \<and> j \<le> i \<longrightarrow> trail (ba ! nat j)))
       \<or> (p - 4 < r \<and> r \<le> i \<and> \<not> trail (ba ! nat r)
           \<and> (\<forall>j. r < j \<and> j \<le> i \<longrightarrow> trail (ba ! nat j))))"
  using assms
proof (induction "nat (i - (p - 4))" arbitrary: i)
  case 0
  then have "findCodepointStart ba p i = Inr (- 1)"
    by (intro findCodepointStart_stop) simp
  moreover have "\<forall>j. p - 4 < j \<and> j \<le> i \<longrightarrow> trail (ba ! nat j)"
    using 0 by auto
  ultimately show ?case by blast
next
  case (Suc k)
  then have i: "p - 4 < i" "0 \<le> i" by linarith+
  note s = findCodepointStart_step [OF i Suc.prems(2)]
  show ?case
  proof (cases "trail (ba ! nat i)")
    case False
    with s have "findCodepointStart ba p i = Inr i" by simp
    with i False show ?thesis by auto
  next
    case t: True
    have "\<exists>r. findCodepointStart ba p (i - 1) = Inr r
        \<and> ((r = - 1 \<and> (\<forall>j. p - 4 < j \<and> j \<le> i - 1 \<longrightarrow> trail (ba ! nat j)))
           \<or> (p - 4 < r \<and> r \<le> i - 1 \<and> \<not> trail (ba ! nat r)
               \<and> (\<forall>j. r < j \<and> j \<le> i - 1 \<longrightarrow> trail (ba ! nat j))))"
      using Suc.hyps(2) Suc.prems by (intro Suc.hyps(1)) linarith+
    then obtain r where r: "findCodepointStart ba p (i - 1) = Inr r"
      and d: "(r = - 1 \<and> (\<forall>j. p - 4 < j \<and> j \<le> i - 1 \<longrightarrow> trail (ba ! nat j)))
           \<or> (p - 4 < r \<and> r \<le> i - 1 \<and> \<not> trail (ba ! nat r)
               \<and> (\<forall>j. r < j \<and> j \<le> i - 1 \<longrightarrow> trail (ba ! nat j)))"
      by blast
    have step: "\<And>j. j \<le> i \<Longrightarrow> j \<le> i - 1 \<or> j = i" by arith
    from d have "(r = - 1 \<and> (\<forall>j. p - 4 < j \<and> j \<le> i \<longrightarrow> trail (ba ! nat j)))
           \<or> (p - 4 < r \<and> r \<le> i \<and> \<not> trail (ba ! nat r)
               \<and> (\<forall>j. r < j \<and> j \<le> i \<longrightarrow> trail (ba ! nat j)))"
    proof (elim disjE conjE)
      assume "r = - 1" "\<forall>j. p - 4 < j \<and> j \<le> i - 1 \<longrightarrow> trail (ba ! nat j)"
      then show ?thesis using t step by blast
    next
      assume "p - 4 < r" "r \<le> i - 1" "\<not> trail (ba ! nat r)"
        "\<forall>j. r < j \<and> j \<le> i - 1 \<longrightarrow> trail (ba ! nat j)"
      moreover from this have "r \<le> i" by simp
      ultimately show ?thesis using t step by blast
    qed
    with s r t show ?thesis by simp
  qed
qed

lemma findSplitPosition_result:
  assumes "- 1 \<le> p - int (M div 4)" "i < int (length ba)"
  shows "\<exists>r. findSplitPosition M ba p i = Inr r
    \<and> ((r = - 1 \<and> (\<forall>j. p - int (M div 4) < j \<and> j \<le> i \<longrightarrow> \<not> breakByte (ba ! nat j)))
       \<or> (p - int (M div 4) < r - 1 \<and> r - 1 \<le> i \<and> breakByte (ba ! nat (r - 1))
           \<and> (\<forall>j. r - 1 < j \<and> j \<le> i \<longrightarrow> \<not> breakByte (ba ! nat j))))"
  using assms
proof (induction "nat (i - (p - int (M div 4)))" arbitrary: i)
  case 0
  then have "findSplitPosition M ba p i = Inr (- 1)"
    by (intro findSplitPosition_stop) simp
  moreover have "\<forall>j. p - int (M div 4) < j \<and> j \<le> i \<longrightarrow> \<not> breakByte (ba ! nat j)"
    using 0 by auto
  ultimately show ?case by blast
next
  case (Suc k)
  then have i: "p - int (M div 4) < i" "0 \<le> i" by linarith+
  note s = findSplitPosition_step [OF i Suc.prems(2)]
  show ?case
  proof (cases "breakByte (ba ! nat i)")
    case True
    with s have "findSplitPosition M ba p i = Inr (i + 1)" by simp
    with i True show ?thesis by auto
  next
    case f: False
    have "\<exists>r. findSplitPosition M ba p (i - 1) = Inr r
        \<and> ((r = - 1 \<and> (\<forall>j. p - int (M div 4) < j \<and> j \<le> i - 1 \<longrightarrow> \<not> breakByte (ba ! nat j)))
         \<or> (p - int (M div 4) < r - 1 \<and> r - 1 \<le> i - 1 \<and> breakByte (ba ! nat (r - 1))
           \<and> (\<forall>j. r - 1 < j \<and> j \<le> i - 1 \<longrightarrow> \<not> breakByte (ba ! nat j))))"
      using Suc.hyps(2) Suc.prems by (intro Suc.hyps(1)) linarith+
    then obtain r where r: "findSplitPosition M ba p (i - 1) = Inr r"
      and d: "(r = - 1 \<and> (\<forall>j. p - int (M div 4) < j \<and> j \<le> i - 1 \<longrightarrow> \<not> breakByte (ba ! nat j)))
         \<or> (p - int (M div 4) < r - 1 \<and> r - 1 \<le> i - 1 \<and> breakByte (ba ! nat (r - 1))
           \<and> (\<forall>j. r - 1 < j \<and> j \<le> i - 1 \<longrightarrow> \<not> breakByte (ba ! nat j)))"
      by blast
    have step: "\<And>j. j \<le> i \<Longrightarrow> j \<le> i - 1 \<or> j = i" by arith
    from d have "(r = - 1 \<and> (\<forall>j. p - int (M div 4) < j \<and> j \<le> i \<longrightarrow> \<not> breakByte (ba ! nat j)))
         \<or> (p - int (M div 4) < r - 1 \<and> r - 1 \<le> i \<and> breakByte (ba ! nat (r - 1))
           \<and> (\<forall>j. r - 1 < j \<and> j \<le> i \<longrightarrow> \<not> breakByte (ba ! nat j)))"
    proof (elim disjE conjE)
      assume "r = - 1"
        "\<forall>j. p - int (M div 4) < j \<and> j \<le> i - 1 \<longrightarrow> \<not> breakByte (ba ! nat j)"
      then show ?thesis using f step by blast
    next
      assume "p - int (M div 4) < r - 1" "r - 1 \<le> i - 1" "breakByte (ba ! nat (r - 1))"
        "\<forall>j. r - 1 < j \<and> j \<le> i - 1 \<longrightarrow> \<not> breakByte (ba ! nat j)"
      moreover from this have "r - 1 \<le> i" by simp
      ultimately show ?thesis using f step by blast
    qed
    with s r f show ?thesis by simp
  qed
qed

subsection \<open>One turn of the loop cuts at a boundary\<close>

lemma boundary_pick:
  assumes "byteOffset T n \<le> byteOffset T k" "k \<le> length T" "n \<le> length T"
  shows "\<exists>m. n \<le> m \<and> m \<le> length T \<and> byteOffset T m = byteOffset T k
           \<and> (byteOffset T n < byteOffset T k \<longrightarrow> n < m)"
proof (cases "n \<le> k")
  case True
  then have "byteOffset T n < byteOffset T k \<longrightarrow> n < k"
    by (cases "n = k") auto
  with True assms show ?thesis by blast
next
  case False
  then have "byteOffset T k \<le> byteOffset T n" by (intro byteOffset_mono) simp
  with assms have "byteOffset T n = byteOffset T k" by simp
  with assms show ?thesis by auto
qed

lemma breakByte_ascii: "breakByte b \<Longrightarrow> unat b < 128"
  using hi_bit [of b] by (simp add: breakByte_def)

lemma splitPosition_cut:
  assumes v: "list_all scalar T" and M: "4 \<le> M" and n: "n \<le> length T"
    and loop: "int (length (toUtf8 T)) > int M + int (byteOffset T n)"
  shows "\<exists>m. n \<le> m \<and> m \<le> length T
    \<and> splitPosition M (toUtf8 T) (int (byteOffset T n)) = Inr (int (byteOffset T m))
    \<and> byteOffset T m \<le> byteOffset T n + M
    \<and> (5 \<le> M \<longrightarrow> n < m)"
proof -
  let ?ba = "toUtf8 T"
  let ?off = "int (byteOffset T n)"
  let ?p = "int M + ?off - 1"
  let ?lo = "?p - int (M div 4)"
  have p: "?p < int (length ?ba)" "- 1 \<le> ?p - 4" using loop M by simp_all
  from findCodepointStart_result [OF p(2) p(1)] obtain l where
    fl: "findCodepointStart ?ba ?p ?p = Inr l"
    and dl: "(l = - 1 \<and> (\<forall>j. ?p - 4 < j \<and> j \<le> ?p \<longrightarrow> trail (?ba ! nat j)))
       \<or> (?p - 4 < l \<and> l \<le> ?p \<and> \<not> trail (?ba ! nat l)
           \<and> (\<forall>j. l < j \<and> j \<le> ?p \<longrightarrow> trail (?ba ! nat j)))"
    by blast
  have w: "nat (?p - 3) + 3 < length ?ba" using loop M by simp
  from start_in_window [OF v w] obtain j where
    j: "nat (?p - 3) \<le> j" "j \<le> nat (?p - 3) + 3" "\<not> trail (?ba ! j)" by blast
  have "?p - 4 < int j" "int j \<le> ?p" using j M by linarith+
  with j(3) have "\<not> (\<forall>j. ?p - 4 < j \<and> j \<le> ?p \<longrightarrow> trail (?ba ! nat j))"
    by (metis nat_int)
  with dl have l: "?p - 4 < l" "l \<le> ?p" "\<not> trail (?ba ! nat l)" by blast+
  have l0: "0 \<le> l" "?off \<le> l" using l(1) M by linarith+
  have ll: "nat l < length ?ba" using l(2) p(1) l0 by linarith
  from start_is_boundary [OF v ll l(3)] obtain k where
    k: "k < length T" "nat l = byteOffset T k" by blast
  have lk: "l = int (byteOffset T k)" using k(2) l0 by linarith
  have lo: "- 1 \<le> ?lo" "?off \<le> ?lo"
  proof -
    have "M div 4 < M" using M by simp
    then show "- 1 \<le> ?lo" "?off \<le> ?lo" by linarith+
  qed
  have li: "l < int (length ?ba)" using ll l0 by linarith
  from findSplitPosition_result [OF lo(1) li] obtain f where
    ff: "findSplitPosition M ?ba ?p l = Inr f"
    and df: "(f = - 1 \<and> (\<forall>j. ?lo < j \<and> j \<le> l \<longrightarrow> \<not> breakByte (?ba ! nat j)))
       \<or> (?lo < f - 1 \<and> f - 1 \<le> l \<and> breakByte (?ba ! nat (f - 1))
           \<and> (\<forall>j. f - 1 < j \<and> j \<le> l \<longrightarrow> \<not> breakByte (?ba ! nat j)))"
    by blast
  have sp: "splitPosition M ?ba ?off
      = Inr (if f \<le> ?off \<or> f > int M + ?off then l else f)"
    by (simp add: splitPosition_def Let_def fl ff)
  from df show ?thesis
  proof (elim disjE conjE)
    assume "f = - 1"
    then have c: "splitPosition M ?ba ?off = Inr (int (byteOffset T k))"
      using sp lk by simp
    have "byteOffset T n \<le> byteOffset T k" using l0(2) lk by linarith
    from boundary_pick [OF this] k(1) n obtain m where
      m: "n \<le> m" "m \<le> length T" "byteOffset T m = byteOffset T k"
        "byteOffset T n < byteOffset T k \<longrightarrow> n < m"
      by auto
    have "byteOffset T k \<le> byteOffset T n + M" using l(2) lk by linarith
    moreover have "5 \<le> M \<longrightarrow> byteOffset T n < byteOffset T k" using l(1) lk by linarith
    ultimately show ?thesis using m c by (intro exI [of _ m]) simp
  next
    assume f: "?lo < f - 1" "f - 1 \<le> l" "breakByte (?ba ! nat (f - 1))"
    have f0: "0 \<le> f - 1" using f(1) lo(1) by linarith
    have fl': "nat (f - 1) < length ?ba" using f(2) li f0 by linarith
    from ascii_next_boundary [OF v fl' breakByte_ascii [OF f(3)]] obtain k' where
      k': "k' \<le> length T" "nat (f - 1) + 1 = byteOffset T k'" by blast
    have fk: "f = int (byteOffset T k')" using k'(2) f0 by linarith
    have "\<not> (f \<le> ?off \<or> f > int M + ?off)" using f(1,2) lo(2) l(2) by linarith
    then have c: "splitPosition M ?ba ?off = Inr (int (byteOffset T k'))"
      using sp fk by simp
    have lt: "byteOffset T n < byteOffset T k'" using f(1) lo(2) fk by linarith
    then have "byteOffset T n \<le> byteOffset T k'" by simp
    from boundary_pick [OF this k'(1) n] obtain m where
      m: "n \<le> m" "m \<le> length T" "byteOffset T m = byteOffset T k'"
        "byteOffset T n < byteOffset T k' \<longrightarrow> n < m"
      by auto
    have "byteOffset T k' \<le> byteOffset T n + M" using f(2) l(2) fk by linarith
    then show ?thesis using m c lt by (intro exI [of _ m]) simp
  qed
qed

subsection \<open>The loop sends consecutive pieces of the text\<close>

lemma sendLoop_exit:
  assumes "\<not> int (length ba) > int M + off"
  shows "sendLoop turns M ba off =
    (if int (length ba) - off > 0 then
       (case messageBytes ba off (int (length ba) - off) of
          Inl e \<Rightarrow> ([], Failed e)
        | Inr chunk \<Rightarrow> ([chunk], Finished))
     else ([], Finished))"
  using assms by (subst sendLoop.simps) simp

lemma sendLoop_0:
  assumes "int (length ba) > int M + off"
  shows "sendLoop 0 M ba off = ([], Unfinished)"
  using assms by (subst sendLoop.simps) simp

lemma sendLoop_Suc:
  assumes "int (length ba) > int M + off"
    and "splitPosition M ba off = Inr cutPoint"
    and "messageBytes ba off (cutPoint - off) = Inr chunk"
  shows "sendLoop (Suc turns) M ba off
    = (chunk # fst (sendLoop turns M ba cutPoint), snd (sendLoop turns M ba cutPoint))"
  using assms by (subst sendLoop.simps) (simp add: Let_def)

lemma messageBytes_slice:
  assumes "n \<le> m" "m \<le> length T"
  shows "messageBytes (toUtf8 T) (int (byteOffset T n)) (int (byteOffset T m) - int (byteOffset T n))
    = Inr (toUtf8 (drop n (take m T)))"
proof -
  have a: "byteOffset T n \<le> byteOffset T m" using assms by (intro byteOffset_mono)
  have b: "byteOffset T m \<le> length (toUtf8 T)" by (rule byteOffset_le)
  have "nat (int (byteOffset T m) - int (byteOffset T n)) = byteOffset T m - byteOffset T n"
    by simp
  then show ?thesis
    using a b byteOffset_slice [OF assms(1), of T] by (simp add: messageBytes_def)
qed

lemma drop_take_drop:
  assumes "n \<le> m" "m \<le> length T"
  shows "drop n (take m T) @ drop m T = drop n T"
proof -
  have "drop n T = drop n (take m T @ drop m T)" by simp
  also have "\<dots> = drop n (take m T) @ drop (n - length (take m T)) (drop m T)"
    by (rule drop_append)
  also have "n - length (take m T) = 0" using assms by simp
  finally show ?thesis by simp
qed

lemma sendLoop_final:
  assumes "\<not> int (length (toUtf8 T)) > int M + int (byteOffset T n)" "n \<le> length T"
  shows "\<exists>segs. sendLoop turns M (toUtf8 T) (int (byteOffset T n)) = (map toUtf8 segs, Finished)
    \<and> concat segs = drop n T \<and> (\<forall>s\<in>set segs. length (toUtf8 s) \<le> M)"
proof (cases "int (length (toUtf8 T)) - int (byteOffset T n) > 0")
  case True
  have "messageBytes (toUtf8 T) (int (byteOffset T n))
      (int (byteOffset T (length T)) - int (byteOffset T n)) = Inr (toUtf8 (drop n (take (length T) T)))"
    using assms(2) by (intro messageBytes_slice) simp_all
  then have "messageBytes (toUtf8 T) (int (byteOffset T n))
      (int (length (toUtf8 T)) - int (byteOffset T n)) = Inr (toUtf8 (drop n T))"
    by (simp add: byteOffset_length)
  with True have "sendLoop turns M (toUtf8 T) (int (byteOffset T n)) = (map toUtf8 [drop n T], Finished)"
    by (simp add: sendLoop_exit [OF assms(1)])
  moreover have "length (toUtf8 (drop n T)) \<le> M"
    using assms(1) byteOffset_tail [of T n] byteOffset_le [of T n]
    by (metis length_drop add.commute le_diff_conv not_less of_nat_add of_nat_le_iff)
  ultimately show ?thesis by (intro exI [of _ "[drop n T]"]) simp
next
  case False
  then have "length (toUtf8 T) \<le> byteOffset T n" by simp
  then have "toUtf8 (drop n T) = []" using byteOffset_tail [of T n] by simp
  then have "drop n T = []" by (simp add: toUtf8_eq_Nil)
  moreover have "sendLoop turns M (toUtf8 T) (int (byteOffset T n)) = (map toUtf8 [], Finished)"
    using False by (simp add: sendLoop_exit [OF assms(1)])
  ultimately show ?thesis by (intro exI [of _ "[]"]) simp
qed

lemma sendLoop_segments:
  assumes v: "list_all scalar T" and M: "4 \<le> M" and n: "n \<le> length T"
  shows "\<exists>segs rest.
      fst (sendLoop turns M (toUtf8 T) (int (byteOffset T n))) = map toUtf8 segs
    \<and> concat segs @ rest = drop n T
    \<and> (\<forall>s\<in>set segs. length (toUtf8 s) \<le> M)
    \<and> (snd (sendLoop turns M (toUtf8 T) (int (byteOffset T n))) = Finished \<and> rest = []
       \<or> snd (sendLoop turns M (toUtf8 T) (int (byteOffset T n))) = Unfinished)
    \<and> (5 \<le> M \<and> length T \<le> n + turns
         \<longrightarrow> snd (sendLoop turns M (toUtf8 T) (int (byteOffset T n))) = Finished)"
  using n
proof (induction turns arbitrary: n)
  case 0
  show ?case
  proof (cases "int (length (toUtf8 T)) > int M + int (byteOffset T n)")
    case False
    from sendLoop_final [OF False "0.prems", of 0] obtain segs where
      "sendLoop 0 M (toUtf8 T) (int (byteOffset T n)) = (map toUtf8 segs, Finished)"
      "concat segs = drop n T" "\<forall>s\<in>set segs. length (toUtf8 s) \<le> M"
      by blast
    then show ?thesis by (intro exI [of _ segs] exI [of _ "[]"]) simp
  next
    case True
    then have s: "sendLoop 0 M (toUtf8 T) (int (byteOffset T n)) = ([], Unfinished)"
      by (rule sendLoop_0)
    have "n \<noteq> length T" using True by (auto simp: byteOffset_length)
    with "0.prems" have "\<not> length T \<le> n + 0" by simp
    then show ?thesis using s by (intro exI [of _ "[]"] exI [of _ "drop n T"]) simp
  qed
next
  case (Suc turns)
  show ?case
  proof (cases "int (length (toUtf8 T)) > int M + int (byteOffset T n)")
    case False
    from sendLoop_final [OF False Suc.prems, of "Suc turns"] obtain segs where
      "sendLoop (Suc turns) M (toUtf8 T) (int (byteOffset T n)) = (map toUtf8 segs, Finished)"
      "concat segs = drop n T" "\<forall>s\<in>set segs. length (toUtf8 s) \<le> M"
      by blast
    then show ?thesis by (intro exI [of _ segs] exI [of _ "[]"]) simp
  next
    case True
    from splitPosition_cut [OF v M Suc.prems True] obtain m where
      m: "n \<le> m" "m \<le> length T"
      and c: "splitPosition M (toUtf8 T) (int (byteOffset T n)) = Inr (int (byteOffset T m))"
      and b: "byteOffset T m \<le> byteOffset T n + M"
      and p: "5 \<le> M \<longrightarrow> n < m"
      by blast
    note mb = messageBytes_slice [OF m]
    note s = sendLoop_Suc [OF True c mb, of turns]
    from Suc.IH [OF m(2)] obtain segs rest where
      i: "fst (sendLoop turns M (toUtf8 T) (int (byteOffset T m))) = map toUtf8 segs"
        "concat segs @ rest = drop m T"
        "\<forall>s\<in>set segs. length (toUtf8 s) \<le> M"
        "snd (sendLoop turns M (toUtf8 T) (int (byteOffset T m))) = Finished \<and> rest = []
          \<or> snd (sendLoop turns M (toUtf8 T) (int (byteOffset T m))) = Unfinished"
        "5 \<le> M \<and> length T \<le> m + turns
         \<longrightarrow> snd (sendLoop turns M (toUtf8 T) (int (byteOffset T m))) = Finished"
      by blast
    let ?seg = "drop n (take m T)"
    have l: "length (toUtf8 ?seg) \<le> M"
    proof -
      have "length (toUtf8 ?seg) = byteOffset T m - byteOffset T n"
        using byteOffset_slice [OF m(1), of T] byteOffset_le [of T m]
          byteOffset_mono [OF m(1), of T]
        by (metis length_take length_drop min.absorb2 diff_le_mono)
      with b show ?thesis by simp
    qed
    have a: "fst (sendLoop (Suc turns) M (toUtf8 T) (int (byteOffset T n)))
        = map toUtf8 (?seg # segs)"
      using s i(1) by simp
    have b': "concat (?seg # segs) @ rest = drop n T"
      using i(2) drop_take_drop [OF m] by simp
    have c': "\<forall>s\<in>set (?seg # segs). length (toUtf8 s) \<le> M"
      using i(3) l by simp
    have d': "snd (sendLoop (Suc turns) M (toUtf8 T) (int (byteOffset T n))) = Finished \<and> rest = []
          \<or> snd (sendLoop (Suc turns) M (toUtf8 T) (int (byteOffset T n))) = Unfinished"
      using s i(4) by simp
    have e': "5 \<le> M \<and> length T \<le> n + Suc turns
         \<longrightarrow> snd (sendLoop (Suc turns) M (toUtf8 T) (int (byteOffset T n))) = Finished"
    proof
      assume h: "5 \<le> M \<and> length T \<le> n + Suc turns"
      with p have "length T \<le> m + turns" by linarith
      with h i(5) s show "snd (sendLoop (Suc turns) M (toUtf8 T) (int (byteOffset T n))) = Finished"
        by simp
    qed
    from a b' c' d' e' show ?thesis by blast
  qed
qed

lemma decodeChunks_segments:
  assumes "list_all (list_all scalar) segs"
  shows "decodeChunks (map toUtf8 segs) = Some (concat segs)"
  using assms by (induction segs) (simp_all add: fromUtf8_toUtf8)

lemma list_all_concat_parts:
  assumes "list_all P (concat segs @ rest)"
  shows "list_all (list_all P) segs"
  using assms by (induction segs) simp_all

subsection \<open>The examples, evaluated\<close>

lemma emoji_bytes: "toUtf8 emoji_text = [0xF0, 0x9F, 0x98, 0x80, 0x61]"
  by (simp add: emoji_text_def toUtf8_def utf8_encode_def)

lemma emoji_cut: "splitPosition 4 [0xF0, 0x9F, 0x98, 0x80, 0x61] 0 = Inr 0"
  by code_simp

lemma emoji_loop:
  "sendLoop turns 4 [0xF0, 0x9F, 0x98, 0x80, 0x61] 0 = (replicate turns [], Unfinished)"
proof (induction turns)
  case 0
  show ?case by (subst sendLoop_0) simp_all
next
  case (Suc turns)
  have "messageBytes [0xF0, 0x9F, 0x98, 0x80, 0x61] 0 (0 - 0) = Inr []"
    by (simp add: messageBytes_def)
  with emoji_cut have "sendLoop (Suc turns) 4 [0xF0, 0x9F, 0x98, 0x80, 0x61] 0
    = ([] # fst (sendLoop turns 4 [0xF0, 0x9F, 0x98, 0x80, 0x61] 0),
       snd (sendLoop turns 4 [0xF0, 0x9F, 0x98, 0x80, 0x61] 0))"
    by (intro sendLoop_Suc) simp_all
  with Suc show ?case by simp
qed

lemma decodeChunks_empties: "decodeChunks (replicate k []) = Some []"
  by (induction k) simp_all

lemma fox_bytes:
  "toUtf8 fox_text = map of_char ''The quick brown fox jumps over the lazy dog again''"
  by (simp add: fox_text_def toUtf8_def utf8_encode_def)

lemma fox_run:
  "sendLoop 3 20 (map of_char ''The quick brown fox jumps over the lazy dog again'') 0
     = ([map of_char ''The quick brown fox '', map of_char ''jumps over the lazy '',
         map of_char ''dog again''], Finished)"
  by code_simp

lemma mixed_bytes: "toUtf8 mixed_text = [0xF0, 0x9F, 0x98, 0x80, 0x61, 0xC3, 0xA9, 0xE2, 0x82, 0xAC]"
  by (simp add: mixed_text_def toUtf8_def utf8_encode_def)

lemma mixed_run: "sendLoop 4 5 [0xF0, 0x9F, 0x98, 0x80, 0x61, 0xC3, 0xA9, 0xE2, 0x82, 0xAC] 0
  = ([[0xF0, 0x9F, 0x98, 0x80], [0x61, 0xC3, 0xA9], [0xE2, 0x82, 0xAC]], Finished)"
  by code_simp

lemma mixed_valid: "list_all scalar mixed_text"
  by (simp add: mixed_text_def scalar_def)

subsection \<open>The cut after the last break byte of the window\<close>

lemma findCodepointStart_le:
  assumes "findCodepointStart ba p i = Inr r"
  shows "r = - 1 \<or> r \<le> i"
  using assms
proof (induction "nat (i - (p - 4))" arbitrary: i)
  case 0
  then have "findCodepointStart ba p i = Inr (- 1)"
    by (intro findCodepointStart_stop) simp
  with "0.prems" show ?case by simp
next
  case (Suc k)
  then have i: "p - 4 < i" by linarith
  show ?case
  proof (cases "byteAt ba i")
    case (Inl e)
    with i Suc.prems show ?thesis by (subst (asm) findCodepointStart.simps) simp
  next
    case (Inr b)
    show ?thesis
    proof (cases "b AND multibyteCodepoint \<noteq> 0 \<and> \<not> (b AND multibyteCodepointStart \<noteq> 0)")
      case True
      with i Inr Suc.prems have "findCodepointStart ba p (i - 1) = Inr r"
        by (subst (asm) findCodepointStart.simps) simp
      moreover have "k = nat (i - 1 - (p - 4))" using Suc.hyps(2) by linarith
      ultimately have "r = - 1 \<or> r \<le> i - 1" by (intro Suc.hyps(1))
      then show ?thesis by auto
    next
      case False
      with i Inr Suc.prems have "r = i"
        by (subst (asm) findCodepointStart.simps) auto
      then show ?thesis by simp
    qed
  qed
qed

lemma break_cut:
  assumes off: "0 \<le> off" and loop: "int (length ba) > int M + off"
    and fl: "findCodepointStart ba (int M + off - 1) (int M + off - 1) = Inr l"
    and w: "int M + off - 1 - int (M div 4) < i" "i \<le> l"
    and b: "breakByte (ba ! nat i)"
    and last: "\<forall>j. i < j \<and> j \<le> l \<longrightarrow> \<not> breakByte (ba ! nat j)"
  shows "splitPosition M ba off = Inr (i + 1)" "off < i + 1" "i + 1 \<le> off + int M"
    "sendLoop (Suc turns) M ba off
       = (take (nat (i + 1 - off)) (drop (nat off) ba) # fst (sendLoop turns M ba (i + 1)),
          snd (sendLoop turns M ba (i + 1)))"
proof -
  let ?p = "int M + off - 1"
  let ?lo = "?p - int (M div 4)"
  have lo: "- 1 \<le> ?lo" "off - 1 \<le> ?lo"
  proof -
    have "M div 4 \<le> M" by simp
    then show "- 1 \<le> ?lo" "off - 1 \<le> ?lo" using off by linarith+
  qed
  have i0: "0 \<le> i" "off \<le> i" using w(1) lo by linarith+
  from findCodepointStart_le [OF fl] w(2) i0 have lp: "l \<le> ?p" by linarith
  then have li: "l < int (length ba)" using loop by linarith
  from findSplitPosition_result [OF lo(1) li] obtain f where
    ff: "findSplitPosition M ba ?p l = Inr f"
    and df: "(f = - 1 \<and> (\<forall>j. ?lo < j \<and> j \<le> l \<longrightarrow> \<not> breakByte (ba ! nat j)))
       \<or> (?lo < f - 1 \<and> f - 1 \<le> l \<and> breakByte (ba ! nat (f - 1))
           \<and> (\<forall>j. f - 1 < j \<and> j \<le> l \<longrightarrow> \<not> breakByte (ba ! nat j)))"
    by blast
  from df w b have f: "?lo < f - 1" "f - 1 \<le> l" "breakByte (ba ! nat (f - 1))"
    "\<forall>j. f - 1 < j \<and> j \<le> l \<longrightarrow> \<not> breakByte (ba ! nat j)"
    by blast+
  have "\<not> f - 1 < i" using f(4) w(2) b by blast
  moreover have "\<not> i < f - 1" using last f(2,3) by blast
  ultimately have fi: "f = i + 1" by linarith
  show c: "splitPosition M ba off = Inr (i + 1)"
    using i0 w(2) lp by (simp add: splitPosition_def Let_def fl ff fi)
  show "off < i + 1" "i + 1 \<le> off + int M" using i0 w(2) lp by linarith+
  have "messageBytes ba off (i + 1 - off) = Inr (take (nat (i + 1 - off)) (drop (nat off) ba))"
    using off i0 w(2) li by (simp add: messageBytes_def)
  with loop c show "sendLoop (Suc turns) M ba off
       = (take (nat (i + 1 - off)) (drop (nat off) ba) # fst (sendLoop turns M ba (i + 1)),
          snd (sendLoop turns M ba (i + 1)))"
    by (intro sendLoop_Suc)
qed

subsection \<open>The claims about the chunker\<close>

text \<open>
  C2. For every text and every \<open>M \<ge> 4\<close>, however many turns the loop has made: the messages
  sent so far are the encodings of consecutive pieces of the text (every boundary between
  two messages is a boundary between two code points), each of them has at most \<open>M\<close> bytes and
  decodes on its own, and no fault has occurred.
\<close>

theorem chunks_bounded_and_decodable:
  assumes "list_all scalar T" and "4 \<le> M"
  shows "(\<exists>segs rest. fst (sendMessage turns M T) = map toUtf8 segs \<and> concat segs @ rest = T)
    \<and> (\<forall>chunk\<in>set (fst (sendMessage turns M T)).
          length chunk \<le> M \<and> (\<exists>t. fromUtf8 chunk = Some t))
    \<and> (\<forall>e. snd (sendMessage turns M T) \<noteq> Failed e)"
proof -
  from sendLoop_segments [OF assms, of 0 turns] obtain segs rest where
    s: "fst (sendMessage turns M T) = map toUtf8 segs" "concat segs @ rest = T"
      "\<forall>s\<in>set segs. length (toUtf8 s) \<le> M"
      "snd (sendMessage turns M T) = Finished \<and> rest = []
        \<or> snd (sendMessage turns M T) = Unfinished"
    unfolding sendMessage_def by auto
  have "list_all (list_all scalar) segs"
    using assms(1) s(2) list_all_concat_parts by blast
  then have "\<forall>s\<in>set segs. fromUtf8 (toUtf8 s) = Some s"
    by (simp add: list_all_iff fromUtf8_toUtf8)
  with s(1,3) have "\<forall>chunk\<in>set (fst (sendMessage turns M T)).
      length chunk \<le> M \<and> (\<exists>t. fromUtf8 chunk = Some t)"
    by auto
  moreover have "\<forall>e. snd (sendMessage turns M T) \<noteq> Failed e" using s(4) by auto
  ultimately show ?thesis using s(1,2) by blast
qed

theorem chunks_bounded_and_decodable_witness:
  "list_all scalar mixed_text \<and> (4 :: nat) \<le> 5
   \<and> fst (sendMessage 4 5 mixed_text)
       = [[0xF0, 0x9F, 0x98, 0x80], [0x61, 0xC3, 0xA9], [0xE2, 0x82, 0xAC]]
   \<and> length [0xF0, 0x9F, 0x98, 0x80 :: byte] \<le> 5
   \<and> (\<exists>t. fromUtf8 [0xF0, 0x9F, 0x98, 0x80] = Some t)
   \<and> (\<exists>t. fromUtf8 [0x61, 0xC3, 0xA9] = Some t)
   \<and> (\<exists>t. fromUtf8 [0xE2, 0x82, 0xAC] = Some t)
   \<and> snd (sendMessage 4 5 mixed_text) \<noteq> Failed OutOfRange"
proof -
  have m: "(4 :: nat) \<le> 5" by simp
  have e: "sendMessage 4 5 mixed_text
      = ([[0xF0, 0x9F, 0x98, 0x80], [0x61, 0xC3, 0xA9], [0xE2, 0x82, 0xAC]], Finished)"
    unfolding sendMessage_def mixed_bytes mixed_run by simp
  from chunks_bounded_and_decodable [OF mixed_valid m, of 4]
  have "(\<forall>chunk\<in>set (fst (sendMessage 4 5 mixed_text)).
          length chunk \<le> 5 \<and> (\<exists>t. fromUtf8 chunk = Some t))
    \<and> (\<forall>e. snd (sendMessage 4 5 mixed_text) \<noteq> Failed e)"
    by blast
  then show ?thesis using mixed_valid unfolding e by simp
qed

text \<open>
  C1, as the code has it. For every text and every \<open>M \<ge> 4\<close>: when \<^verbatim>\<open>sendMessage\<close> has
  returned, the decoded messages, one after the other, are the text; and for \<open>M \<ge> 5\<close> it
  returns, after at most as many turns of the loop as the text has code points.
\<close>

theorem chunks_reproduce_text:
  assumes "list_all scalar T" and "4 \<le> M"
  shows "(snd (sendMessage turns M T) = Finished
           \<longrightarrow> decodeChunks (fst (sendMessage turns M T)) = Some T)
    \<and> (5 \<le> M \<and> length T \<le> turns \<longrightarrow> snd (sendMessage turns M T) = Finished)"
proof -
  from sendLoop_segments [OF assms, of 0 turns] obtain segs rest where
    s: "fst (sendMessage turns M T) = map toUtf8 segs" "concat segs @ rest = T"
      "snd (sendMessage turns M T) = Finished \<and> rest = []
        \<or> snd (sendMessage turns M T) = Unfinished"
      "5 \<le> M \<and> length T \<le> 0 + turns \<longrightarrow> snd (sendMessage turns M T) = Finished"
    unfolding sendMessage_def by auto
  have "list_all (list_all scalar) segs"
    using assms(1) s(2) list_all_concat_parts by blast
  then have "decodeChunks (fst (sendMessage turns M T)) = Some (concat segs)"
    unfolding s(1) by (rule decodeChunks_segments)
  moreover have "snd (sendMessage turns M T) = Finished \<longrightarrow> concat segs = T"
    using s(2,3) by auto
  ultimately show ?thesis using s(4) by simp
qed

theorem chunks_reproduce_text_witness:
  "list_all scalar mixed_text \<and> (4 :: nat) \<le> 5 \<and> (5 :: nat) \<le> 5 \<and> length mixed_text \<le> 4
   \<and> snd (sendMessage 4 5 mixed_text) = Finished
   \<and> fst (sendMessage 4 5 mixed_text)
       = [[0xF0, 0x9F, 0x98, 0x80], [0x61, 0xC3, 0xA9], [0xE2, 0x82, 0xAC]]
   \<and> decodeChunks [[0xF0, 0x9F, 0x98, 0x80], [0x61, 0xC3, 0xA9], [0xE2, 0x82, 0xAC]]
       = Some mixed_text"
proof -
  have m: "(4 :: nat) \<le> 5" by simp
  have l: "length mixed_text \<le> 4" by (simp add: mixed_text_def)
  have e: "sendMessage 4 5 mixed_text
      = ([[0xF0, 0x9F, 0x98, 0x80], [0x61, 0xC3, 0xA9], [0xE2, 0x82, 0xAC]], Finished)"
    unfolding sendMessage_def mixed_bytes mixed_run by simp
  from chunks_reproduce_text [OF mixed_valid m, of 4] l
  have "snd (sendMessage 4 5 mixed_text) = Finished
      \<and> decodeChunks (fst (sendMessage 4 5 mixed_text)) = Some mixed_text"
    by simp
  then show ?thesis using mixed_valid l unfolding e by simp
qed

text \<open>
  C1 as claimed fails at \<open>M = 4\<close>: for an emoji of four bytes followed by a letter the loop
  never ends, every message sent is empty, and their concatenation is never the text.
\<close>

theorem chunks_reproduce_text_counterexample:
  "\<forall>turns. snd (sendMessage turns 4 emoji_text) = Unfinished
     \<and> decodeChunks (fst (sendMessage turns 4 emoji_text)) = Some []
     \<and> decodeChunks (fst (sendMessage turns 4 emoji_text)) \<noteq> Some emoji_text"
  unfolding sendMessage_def emoji_bytes emoji_loop
  by (simp add: decodeChunks_empties emoji_text_def)

text \<open>
  C5, as the code has it. For every text and every \<open>M \<ge> 5\<close>: at every offset the loop can
  stand at (a boundary between code points) with more than \<open>M\<close> bytes left, the cut chosen is
  strictly after the offset and at most \<open>M\<close> bytes further; and the loop ends after at most
  as many turns as the text has code points.
\<close>

theorem loop_progress:
  assumes "list_all scalar T" and "5 \<le> M"
  shows "(\<forall>n\<le>length T. int (length (toUtf8 T)) > int M + int (byteOffset T n) \<longrightarrow>
           (\<exists>cutPoint. splitPosition M (toUtf8 T) (int (byteOffset T n)) = Inr cutPoint
              \<and> int (byteOffset T n) < cutPoint \<and> cutPoint \<le> int (byteOffset T n) + int M))
    \<and> (length T \<le> turns \<longrightarrow> snd (sendMessage turns M T) = Finished)"
proof (intro conjI allI impI)
  fix n
  assume n: "n \<le> length T" and l: "int (length (toUtf8 T)) > int M + int (byteOffset T n)"
  have M: "4 \<le> M" using assms(2) by simp
  from splitPosition_cut [OF assms(1) M n l] obtain m where
    m: "n \<le> m" "m \<le> length T"
      "splitPosition M (toUtf8 T) (int (byteOffset T n)) = Inr (int (byteOffset T m))"
      "byteOffset T m \<le> byteOffset T n + M" "5 \<le> M \<longrightarrow> n < m"
    by blast
  with assms(2) have "byteOffset T n < byteOffset T m" by (intro byteOffset_strict) simp_all
  with m(3,4) show "\<exists>cutPoint. splitPosition M (toUtf8 T) (int (byteOffset T n)) = Inr cutPoint
      \<and> int (byteOffset T n) < cutPoint \<and> cutPoint \<le> int (byteOffset T n) + int M"
    by (intro exI [of _ "int (byteOffset T m)"]) simp
next
  assume t: "length T \<le> turns"
  have M: "4 \<le> M" using assms(2) by simp
  from sendLoop_segments [OF assms(1) M, of 0 turns] t assms(2)
  show "snd (sendMessage turns M T) = Finished"
    unfolding sendMessage_def by auto
qed

theorem loop_progress_witness:
  "list_all scalar mixed_text \<and> (5 :: nat) \<le> 5 \<and> (1 :: nat) \<le> length mixed_text
   \<and> byteOffset mixed_text 1 = 4
   \<and> int (length (toUtf8 mixed_text)) > int 5 + int (byteOffset mixed_text 1)
   \<and> (\<exists>cutPoint. splitPosition 5 (toUtf8 mixed_text) 4 = Inr cutPoint
         \<and> 4 < cutPoint \<and> cutPoint \<le> 4 + int 5)
   \<and> length mixed_text \<le> 4
   \<and> snd (sendMessage 4 5 mixed_text) = Finished"
proof -
  have m: "(5 :: nat) \<le> 5" by simp
  have l: "length mixed_text \<le> 4" "(1 :: nat) \<le> length mixed_text"
    by (simp_all add: mixed_text_def)
  have o: "byteOffset mixed_text 1 = 4"
    by (simp add: byteOffset_def mixed_text_def toUtf8_def utf8_encode_def)
  have c: "int (length (toUtf8 mixed_text)) > int 5 + int (byteOffset mixed_text 1)"
    unfolding o mixed_bytes by simp
  note t = loop_progress [OF mixed_valid m, of 4]
  from t l(2) c have "\<exists>cutPoint. splitPosition 5 (toUtf8 mixed_text) (int (byteOffset mixed_text 1))
      = Inr cutPoint \<and> int (byteOffset mixed_text 1) < cutPoint
      \<and> cutPoint \<le> int (byteOffset mixed_text 1) + int 5"
    by blast
  then have "\<exists>cutPoint. splitPosition 5 (toUtf8 mixed_text) 4 = Inr cutPoint
         \<and> 4 < cutPoint \<and> cutPoint \<le> 4 + int 5"
    unfolding o by simp
  moreover from t l(1) have "snd (sendMessage 4 5 mixed_text) = Finished" by blast
  ultimately show ?thesis using mixed_valid l o c by simp
qed

text \<open>
  C5 as claimed fails at \<open>M = 4\<close>: for an emoji of four bytes followed by a letter the loop
  is entered at offset 0, the cut chosen is 0 again, and no number of turns ends the loop.
\<close>

theorem loop_progress_counterexample:
  "int (length (toUtf8 emoji_text)) > int 4 + 0
   \<and> splitPosition 4 (toUtf8 emoji_text) 0 = Inr 0
   \<and> (\<forall>turns. snd (sendMessage turns 4 emoji_text) = Unfinished)"
  by (simp add: sendMessage_def emoji_bytes emoji_loop emoji_cut)

text \<open>
  C4, as the code has it. A text that is not empty and whose encoding has at most \<open>M\<close> bytes
  is sent as exactly one message, its whole encoding, which decodes to the text. For the
  empty text no message is sent, whatever the limit \<open>M\<close> is.
\<close>

theorem short_text_one_chunk:
  "(T \<noteq> [] \<and> length (toUtf8 T) \<le> M \<longrightarrow>
      sendMessage turns M T = ([toUtf8 T], Finished)
      \<and> (list_all scalar T \<longrightarrow> decodeChunks (fst (sendMessage turns M T)) = Some T))
   \<and> sendMessage turns M [] = ([], Finished)"
proof (intro conjI impI)
  assume a: "T \<noteq> [] \<and> length (toUtf8 T) \<le> M"
  have e: "\<not> int (length (toUtf8 T)) > int M + 0" using a by simp
  have p: "0 < length (toUtf8 T)" using a by (simp add: toUtf8_eq_Nil)
  have "messageBytes (toUtf8 T) 0 (int (length (toUtf8 T)) - 0) = Inr (toUtf8 T)"
    by (simp add: messageBytes_def)
  with p show s: "sendMessage turns M T = ([toUtf8 T], Finished)"
    unfolding sendMessage_def by (subst sendLoop_exit [OF e]) simp
  assume "list_all scalar T"
  then show "decodeChunks (fst (sendMessage turns M T)) = Some T"
    unfolding s by (simp add: fromUtf8_toUtf8)
next
  show "sendMessage turns M [] = ([], Finished)"
    by (simp add: sendMessage_def sendLoop_exit)
qed

theorem short_text_one_chunk_witness:
  "mixed_text \<noteq> [] \<and> length (toUtf8 mixed_text) \<le> 10 \<and> list_all scalar mixed_text
   \<and> sendMessage 0 10 mixed_text
       = ([[0xF0, 0x9F, 0x98, 0x80, 0x61, 0xC3, 0xA9, 0xE2, 0x82, 0xAC]], Finished)
   \<and> decodeChunks (fst (sendMessage 0 10 mixed_text)) = Some mixed_text
   \<and> sendMessage 0 10 [] = ([], Finished)"
proof -
  have n: "mixed_text \<noteq> []" by (simp add: mixed_text_def)
  have l: "length (toUtf8 mixed_text) \<le> 10" unfolding mixed_bytes by simp
  from short_text_one_chunk [where T = mixed_text and M = 10 and turns = 0] n l mixed_valid
  have "sendMessage 0 10 mixed_text = ([toUtf8 mixed_text], Finished)
     \<and> decodeChunks (fst (sendMessage 0 10 mixed_text)) = Some mixed_text
     \<and> sendMessage 0 10 [] = ([], Finished)"
    by blast
  then show ?thesis using n l mixed_valid unfolding mixed_bytes by blast
qed

text \<open>
  C4 as claimed fails for the empty text: its length 0 is at most \<open>M\<close>, and no message is
  sent (the guard before the final send); here with the limit 4.
\<close>

theorem short_text_one_chunk_counterexample:
  "length (toUtf8 []) \<le> 4 \<and> (\<forall>turns. sendMessage turns 4 [] = ([], Finished))"
  by (simp add: sendMessage_def sendLoop_exit)

text \<open>
  C3. In a turn of the loop (the array is longer than the frame allows from the offset
  \<open>messageOffset \<ge> 0\<close>), let \<open>i\<close> be the position of the last break byte, a space, period,
  comma or hyphen in a single byte, in the window the second loop searches, the positions
  above \<open>absoluteMaxPosition - M / 4\<close> up to \<open>lastCodepointStart\<close>. Then the cut is immediately
  after it, strictly after the offset and within the frame, and the message sent is the
  bytes from the offset through that break byte. The sentence of the specification with
  \<open>M = 20\<close> is cut after the space at position 20 and again after the space at position 40.
\<close>

theorem break_preferred:
  "(0 \<le> messageOffset \<and> int (length byteArray) > int M + messageOffset
     \<and> findCodepointStart byteArray (int M + messageOffset - 1) (int M + messageOffset - 1)
          = Inr lastCodepointStart
     \<and> int M + messageOffset - 1 - int (M div 4) < i \<and> i \<le> lastCodepointStart
     \<and> breakByte (byteArray ! nat i)
     \<and> (\<forall>j. i < j \<and> j \<le> lastCodepointStart \<longrightarrow> \<not> breakByte (byteArray ! nat j))
    \<longrightarrow> splitPosition M byteArray messageOffset = Inr (i + 1)
        \<and> messageOffset < i + 1 \<and> i + 1 \<le> messageOffset + int M
        \<and> fst (sendLoop (Suc turns) M byteArray messageOffset)
            = take (nat (i + 1 - messageOffset)) (drop (nat messageOffset) byteArray)
              # fst (sendLoop turns M byteArray (i + 1)))
   \<and> fst (sendMessage 3 20 fox_text)
       = [map of_char ''The quick brown fox '', map of_char ''jumps over the lazy '',
          map of_char ''dog again'']"
proof (intro conjI impI)
  assume a: "0 \<le> messageOffset \<and> int (length byteArray) > int M + messageOffset
     \<and> findCodepointStart byteArray (int M + messageOffset - 1) (int M + messageOffset - 1)
          = Inr lastCodepointStart
     \<and> int M + messageOffset - 1 - int (M div 4) < i \<and> i \<le> lastCodepointStart
     \<and> breakByte (byteArray ! nat i)
     \<and> (\<forall>j. i < j \<and> j \<le> lastCodepointStart \<longrightarrow> \<not> breakByte (byteArray ! nat j))"
  then have h: "0 \<le> messageOffset" "int (length byteArray) > int M + messageOffset"
    "findCodepointStart byteArray (int M + messageOffset - 1) (int M + messageOffset - 1)
          = Inr lastCodepointStart"
    "int M + messageOffset - 1 - int (M div 4) < i" "i \<le> lastCodepointStart"
    "breakByte (byteArray ! nat i)"
    "\<forall>j. i < j \<and> j \<le> lastCodepointStart \<longrightarrow> \<not> breakByte (byteArray ! nat j)"
    by blast+
  note c = break_cut [OF h]
  show "splitPosition M byteArray messageOffset = Inr (i + 1)" by (rule c(1))
  show "messageOffset < i + 1" by (rule c(2))
  show "i + 1 \<le> messageOffset + int M" by (rule c(3))
  show "fst (sendLoop (Suc turns) M byteArray messageOffset)
            = take (nat (i + 1 - messageOffset)) (drop (nat messageOffset) byteArray)
              # fst (sendLoop turns M byteArray (i + 1))"
    by (simp add: c(4))
next
  show "fst (sendMessage 3 20 fox_text)
       = [map of_char ''The quick brown fox '', map of_char ''jumps over the lazy '',
          map of_char ''dog again'']"
    unfolding sendMessage_def fox_bytes fox_run by simp
qed

theorem break_preferred_witness:
  "(0 :: int) \<le> 0
   \<and> int (length (toUtf8 fox_text)) > int 12 + 0
   \<and> findCodepointStart (toUtf8 fox_text) (int 12 + 0 - 1) (int 12 + 0 - 1) = Inr 11
   \<and> int 12 + 0 - 1 - int (12 div 4) < 9 \<and> (9 :: int) \<le> 11
   \<and> breakByte (toUtf8 fox_text ! nat 9)
   \<and> \<not> breakByte (toUtf8 fox_text ! nat 10) \<and> \<not> breakByte (toUtf8 fox_text ! nat 11)
   \<and> splitPosition 12 (toUtf8 fox_text) 0 = Inr 10
   \<and> fst (sendLoop (Suc 0) 12 (toUtf8 fox_text) 0) = [map of_char ''The quick '']"
proof -
  let ?ba = "toUtf8 fox_text"
  have f: "findCodepointStart ?ba (int 12 + 0 - 1) (int 12 + 0 - 1) = Inr 11"
    unfolding fox_bytes by code_simp
  have l: "int (length ?ba) > int 12 + 0" unfolding fox_bytes by simp
  have b: "breakByte (?ba ! nat 9)" unfolding fox_bytes by code_simp
  have n: "\<not> breakByte (?ba ! nat 10)" "\<not> breakByte (?ba ! nat 11)"
    unfolding fox_bytes by code_simp+
  have a: "\<forall>j. (9 :: int) < j \<and> j \<le> 11 \<longrightarrow> \<not> breakByte (?ba ! nat j)"
  proof (intro allI impI)
    fix j :: int
    assume "9 < j \<and> j \<le> 11"
    then have "j = 10 \<or> j = 11" by linarith
    with n show "\<not> breakByte (?ba ! nat j)" by auto
  qed
  have r: "fst (sendLoop 0 12 ?ba (9 + 1)) = []" unfolding fox_bytes by code_simp
  have t: "take (nat (9 + 1 - 0)) (drop (nat 0) ?ba) = map of_char ''The quick ''"
    unfolding fox_bytes by simp
  have w: "int 12 + 0 - 1 - int (12 div 4) < (9 :: int)" by simp
  from break_preferred [where messageOffset = 0 and byteArray = ?ba and M = 12
      and lastCodepointStart = 11 and i = 9 and turns = 0] f l b a w
  have "splitPosition 12 ?ba 0 = Inr (9 + 1)
      \<and> fst (sendLoop (Suc 0) 12 ?ba 0)
          = take (nat (9 + 1 - 0)) (drop (nat 0) ?ba) # fst (sendLoop 0 12 ?ba (9 + 1))"
    by simp
  then have "splitPosition 12 ?ba 0 = Inr 10
      \<and> fst (sendLoop (Suc 0) 12 ?ba 0) = [map of_char ''The quick '']"
    unfolding r t by simp
  with f l b n w show ?thesis by simp
qed

end
